theory Spec2Isabelle
  imports Complex_Main
begin

section \<open>JavaScript numbers\<close>

text \<open>
  The distribution engine (the special functions, the registry of 21 families and
  \<open>computePoints\<close>) computes on JavaScript numbers.  A number is modelled as an
  exact real, or one of the three special values of IEEE 754: \<open>NaN\<close>, \<open>+Infinity\<close>
  (\<open>PInf\<close>) and \<open>-Infinity\<close> (\<open>NInf\<close>).  The special values follow the rules of
  ECMAScript (division by zero, \<open>Infinity - Infinity\<close>, \<open>0 * Infinity\<close>, logarithm
  and square root of a negative number, comparisons with \<open>NaN\<close>).  A result of
  \<open>+\<close>, \<open>-\<close>, \<open>*\<close>, \<open>/\<close>, \<open>Math.exp\<close> or \<open>Math.pow\<close> whose magnitude reaches
  \<open>2\<^sup>1\<^sup>0\<^sup>2\<^sup>4\<close> overflows to the infinity of its sign (\<open>rnd\<close>), as no binary64 value
  is that large.  Below that bound arithmetic is exact: rounding to 53 bits,
  underflow and the sign of zero are not part of the model, a decimal literal is
  the rational it denotes, and \<open>Math.PI\<close> is \<open>\<pi>\<close>.
\<close>

datatype jsnum = NaN | NInf | Fin real | PInf

definition MAXR :: real where
  "MAXR = 2 ^ 1024"

definition rnd :: "real \<Rightarrow> jsnum" where
  "rnd r = (if MAXR \<le> r then PInf else if r \<le> - MAXR then NInf else Fin r)"

instantiation jsnum :: "{plus, minus, uminus, times, inverse, ord, abs}"
begin

fun plus_jsnum :: "jsnum \<Rightarrow> jsnum \<Rightarrow> jsnum" where
  "NaN + _ = NaN"
| "_ + NaN = NaN"
| "PInf + NInf = NaN"
| "NInf + PInf = NaN"
| "PInf + _ = PInf"
| "_ + PInf = PInf"
| "NInf + _ = NInf"
| "_ + NInf = NInf"
| "Fin a + Fin b = rnd (a + b)"

fun uminus_jsnum :: "jsnum \<Rightarrow> jsnum" where
  "- NaN = NaN"
| "- PInf = NInf"
| "- NInf = PInf"
| "- Fin a = Fin (- a)"

fun minus_jsnum :: "jsnum \<Rightarrow> jsnum \<Rightarrow> jsnum" where
  "NaN - _ = NaN"
| "_ - NaN = NaN"
| "PInf - PInf = NaN"
| "NInf - NInf = NaN"
| "PInf - _ = PInf"
| "_ - NInf = PInf"
| "NInf - _ = NInf"
| "_ - PInf = NInf"
| "Fin a - Fin b = rnd (a - b)"

fun times_jsnum :: "jsnum \<Rightarrow> jsnum \<Rightarrow> jsnum" where
  "NaN * _ = NaN"
| "_ * NaN = NaN"
| "PInf * PInf = PInf"
| "PInf * NInf = NInf"
| "NInf * PInf = NInf"
| "NInf * NInf = PInf"
| "PInf * Fin b = (if b = 0 then NaN else if 0 < b then PInf else NInf)"
| "NInf * Fin b = (if b = 0 then NaN else if 0 < b then NInf else PInf)"
| "Fin a * PInf = (if a = 0 then NaN else if 0 < a then PInf else NInf)"
| "Fin a * NInf = (if a = 0 then NaN else if 0 < a then NInf else PInf)"
| "Fin a * Fin b = rnd (a * b)"

fun divide_jsnum :: "jsnum \<Rightarrow> jsnum \<Rightarrow> jsnum" where
  "divide_jsnum NaN _ = NaN"
| "divide_jsnum _ NaN = NaN"
| "divide_jsnum PInf PInf = NaN"
| "divide_jsnum PInf NInf = NaN"
| "divide_jsnum NInf PInf = NaN"
| "divide_jsnum NInf NInf = NaN"
| "divide_jsnum PInf (Fin b) = (if 0 \<le> b then PInf else NInf)"
| "divide_jsnum NInf (Fin b) = (if 0 \<le> b then NInf else PInf)"
| "divide_jsnum (Fin a) PInf = Fin 0"
| "divide_jsnum (Fin a) NInf = Fin 0"
| "divide_jsnum (Fin a) (Fin b) =
     (if b = 0 then (if a = 0 then NaN else if 0 < a then PInf else NInf)
      else rnd (a / b))"

definition inverse_jsnum :: "jsnum \<Rightarrow> jsnum" where
  "inverse_jsnum a = divide (Fin 1) a"

fun less_jsnum :: "jsnum \<Rightarrow> jsnum \<Rightarrow> bool" where
  "NaN < _ = False"
| "_ < NaN = False"
| "_ < NInf = False"
| "PInf < _ = False"
| "NInf < _ = True"
| "_ < PInf = True"
| "Fin a < Fin b = (a < b)"

fun less_eq_jsnum :: "jsnum \<Rightarrow> jsnum \<Rightarrow> bool" where
  "NaN \<le> _ = False"
| "_ \<le> NaN = False"
| "NInf \<le> _ = True"
| "_ \<le> PInf = True"
| "_ \<le> NInf = False"
| "PInf \<le> _ = False"
| "Fin a \<le> Fin b = (a \<le> b)"

fun abs_jsnum :: "jsnum \<Rightarrow> jsnum" where
  "abs_jsnum NaN = NaN"
| "abs_jsnum PInf = PInf"
| "abs_jsnum NInf = PInf"
| "abs_jsnum (Fin a) = Fin \<bar>a\<bar>"

instance ..

end

text \<open>Strict equality \<open>===\<close> of two numbers: \<open>NaN\<close> equals nothing.\<close>

definition strict_eq :: "jsnum \<Rightarrow> jsnum \<Rightarrow> bool" where
  "strict_eq a b = (a \<noteq> NaN \<and> b \<noteq> NaN \<and> a = b)"

fun isFinite :: "jsnum \<Rightarrow> bool" where
  "isFinite (Fin a) = True"
| "isFinite _ = False"

subsection \<open>The functions of \<open>Math\<close>\<close>

fun Math_exp :: "jsnum \<Rightarrow> jsnum" where
  "Math_exp NaN = NaN"
| "Math_exp PInf = PInf"
| "Math_exp NInf = Fin 0"
| "Math_exp (Fin a) = rnd (exp a)"

fun Math_log :: "jsnum \<Rightarrow> jsnum" where
  "Math_log NaN = NaN"
| "Math_log PInf = PInf"
| "Math_log NInf = NaN"
| "Math_log (Fin a) = (if a < 0 then NaN else if a = 0 then NInf else Fin (ln a))"

fun Math_sqrt :: "jsnum \<Rightarrow> jsnum" where
  "Math_sqrt NaN = NaN"
| "Math_sqrt PInf = PInf"
| "Math_sqrt NInf = NaN"
| "Math_sqrt (Fin a) = (if a < 0 then NaN else Fin (sqrt a))"

fun Math_sin :: "jsnum \<Rightarrow> jsnum" where
  "Math_sin (Fin a) = Fin (sin a)"
| "Math_sin _ = NaN"

fun Math_round :: "jsnum \<Rightarrow> jsnum" where
  "Math_round (Fin a) = Fin (of_int \<lfloor>a + 1 / 2\<rfloor>)"
| "Math_round v = v"

fun Math_ceil :: "jsnum \<Rightarrow> jsnum" where
  "Math_ceil (Fin a) = Fin (of_int \<lceil>a\<rceil>)"
| "Math_ceil v = v"

fun Math_floor :: "jsnum \<Rightarrow> jsnum" where
  "Math_floor (Fin a) = Fin (of_int \<lfloor>a\<rfloor>)"
| "Math_floor v = v"

definition Math_min :: "jsnum \<Rightarrow> jsnum \<Rightarrow> jsnum" where
  "Math_min a b = (if a = NaN \<or> b = NaN then NaN else if a \<le> b then a else b)"

definition Math_max :: "jsnum \<Rightarrow> jsnum \<Rightarrow> jsnum" where
  "Math_max a b = (if a = NaN \<or> b = NaN then NaN else if a \<le> b then b else a)"

text \<open>
  \<open>Math.pow(base, exponent)\<close>, which is also the operator \<open>**\<close>, by the cases of
  ECMAScript's \<open>Number::exponentiate\<close>, in their order.
\<close>

definition is_int :: "real \<Rightarrow> bool" where
  "is_int e = (of_int \<lfloor>e\<rfloor> = e)"

definition Math_pow :: "jsnum \<Rightarrow> jsnum \<Rightarrow> jsnum" where
  "Math_pow base exponent =
     (case exponent of
        NaN \<Rightarrow> NaN
      | Fin e \<Rightarrow>
          (if e = 0 then Fin 1
           else (case base of
                   NaN \<Rightarrow> NaN
                 | PInf \<Rightarrow> (if 0 < e then PInf else Fin 0)
                 | NInf \<Rightarrow> (if 0 < e then (if is_int e \<and> odd \<lfloor>e\<rfloor> then NInf else PInf)
                            else Fin 0)
                 | Fin b \<Rightarrow>
                     (if b = 0 then (if 0 < e then Fin 0 else PInf)
                      else if 0 < b then rnd (b powr e)
                      else if is_int e then rnd (b powi \<lfloor>e\<rfloor>)
                      else NaN)))
      | PInf \<Rightarrow>
          (case base of
             NaN \<Rightarrow> NaN
           | Fin b \<Rightarrow> (if 1 < \<bar>b\<bar> then PInf else if \<bar>b\<bar> = 1 then NaN else Fin 0)
           | _ \<Rightarrow> PInf)
      | NInf \<Rightarrow>
          (case base of
             NaN \<Rightarrow> NaN
           | Fin b \<Rightarrow> (if 1 < \<bar>b\<bar> then Fin 0 else if \<bar>b\<bar> = 1 then NaN else PInf)
           | _ \<Rightarrow> Fin 0))"

text \<open>
  \<open>parseFloat(x.toFixed(6))\<close>: the nearest multiple of \<open>10\<^sup>-\<^sup>6\<close>, a tie going away
  from zero; \<open>toFixed\<close> prints a number of magnitude \<open>10\<^sup>2\<^sup>1\<close> or more, and the
  special values, as they are.
\<close>

fun toFixed6 :: "jsnum \<Rightarrow> jsnum" where
  "toFixed6 (Fin a) =
     (if 10 ^ 21 \<le> \<bar>a\<bar> then Fin a
      else if a < 0 then Fin (- (of_int \<lfloor>- a * 10 ^ 6 + 1 / 2\<rfloor> / 10 ^ 6))
      else Fin (of_int \<lfloor>a * 10 ^ 6 + 1 / 2\<rfloor> / 10 ^ 6))"
| "toFixed6 v = v"

text \<open>
  An array pattern such as \<open>[mu, sigma]\<close> binds a name to \<open>undefined\<close> when the
  array is too short.  In the arithmetic and the comparisons that follow,
  \<open>undefined\<close> behaves as \<open>NaN\<close> does.
\<close>

definition arg :: "jsnum list \<Rightarrow> nat \<Rightarrow> jsnum" where
  "arg ps i = (if i < length ps then ps ! i else NaN)"

section \<open>Math helpers\<close>

definition Math_PI :: jsnum where
  "Math_PI = Fin pi"

definition lanczos_c :: "real list" where
  "lanczos_c =
     [0.99999999999980993, 676.5203681218851, - 1259.1392167224028,
      771.32342877765313, - 176.61502916214059, 12.507343278686905,
      - 0.13857109526572012, 9.9843695780195716 / 10 ^ 6, 1.5056327351493116 / 10 ^ 7]"

function logGamma :: "jsnum \<Rightarrow> jsnum" where
  "logGamma z =
     (if z < Fin 0.5
      then Math_log (Math_PI / Math_sin (Math_PI * z)) - logGamma (Fin 1 - z)
      else
        (let g = 7;
             z = z - Fin 1;
             x = fold (\<lambda>i x. x + Fin (lanczos_c ! i) / (z + Fin (real i)))
                   [1 ..< g + 2] (Fin (lanczos_c ! 0));
             t = z + Fin (real g) + Fin 0.5
         in Fin 0.5 * Math_log (Fin 2 * Math_PI) + (z + Fin 0.5) * Math_log t - t
              + Math_log x))"
  by pat_completeness auto

lemma rnd_cases: "rnd r = PInf \<and> MAXR \<le> r \<or> rnd r = NInf \<and> r \<le> - MAXR \<or> rnd r = Fin r"
  by (simp add: rnd_def)

lemma MAXR_pos: "0 < MAXR"
  by (simp add: MAXR_def)

lemma logGamma_reflect: "z < Fin (1 / 2) \<Longrightarrow> \<not> (Fin 1 - z < Fin (1 / 2))"
proof (cases z)
  case (Fin r)
  assume "z < Fin (1 / 2)"
  with Fin have r: "r < 1 / 2" by simp
  from rnd_cases [of "1 - r"] MAXR_pos r show ?thesis
    using Fin by auto
qed simp_all

termination logGamma
  by (relation "measure (\<lambda>z. if z < Fin 0.5 then 1 else 0)") (auto dest: logGamma_reflect)

definition logBeta :: "jsnum \<Rightarrow> jsnum \<Rightarrow> jsnum" where
  "logBeta a b = logGamma a + logGamma b - logGamma (a + b)"

text \<open>
  The loop of \<open>binomCoeff\<close> counts \<open>i\<close> up while \<open>i < k\<close>; it would not end for
  \<open>k = Infinity\<close>, so it is a partial function, and \<open>None\<close> stands for a loop that
  never ends.
\<close>

partial_function (option) binomCoeff_loop :: "jsnum \<Rightarrow> jsnum \<Rightarrow> nat \<Rightarrow> jsnum \<Rightarrow> jsnum option" where
  "binomCoeff_loop n k i result =
     (if Fin (real i) < k
      then binomCoeff_loop n k (Suc i) (result * ((n - Fin (real i)) / (Fin (real i) + Fin 1)))
      else Some result)"

definition binomCoeff :: "jsnum \<Rightarrow> jsnum \<Rightarrow> jsnum option" where
  "binomCoeff n k =
     (if k < Fin 0 \<or> n < k then Some (Fin 0)
      else if strict_eq k (Fin 0) \<or> strict_eq k n then Some (Fin 1)
      else binomCoeff_loop n (Math_min k (n - k)) 0 (Fin 1))"

definition SQRT2 :: jsnum where
  "SQRT2 = Math_sqrt (Fin 2)"

definition SQRT2PI :: jsnum where
  "SQRT2PI = Math_sqrt (Fin 2 * Math_PI)"

definition normalPDF :: "jsnum \<Rightarrow> jsnum \<Rightarrow> jsnum \<Rightarrow> jsnum" where
  "normalPDF x mu sigma =
     (let z = (x - mu) / sigma
      in Math_exp (- Fin 0.5 * z * z) / (sigma * SQRT2PI))"

definition erf :: "jsnum \<Rightarrow> jsnum" where
  "erf x0 =
     (let a1 = Fin 0.254829592; a2 = Fin (- 0.284496736); a3 = Fin 1.421413741;
          a4 = Fin (- 1.453152027); a5 = Fin 1.061405429; p = Fin 0.3275911;
          sign = (if x0 < Fin 0 then Fin (- 1) else Fin 1);
          x = \<bar>x0\<bar>;
          t = Fin 1.0 / (Fin 1.0 + p * x);
          y = Fin 1.0 - (((((a5 * t + a4) * t) + a3) * t + a2) * t + a1) * t * Math_exp (- x * x)
      in sign * y)"

definition normalCDF :: "jsnum \<Rightarrow> jsnum" where
  "normalCDF x = Fin 0.5 * (Fin 1 + erf (x / SQRT2))"


section \<open>The data model\<close>

text \<open>
  A \<open>ParamDef\<close> gives one parameter's name, slider range, step and default; a
  \<open>Distribution\<close> gives a family's name, kind, parameters, support window and
  density or mass function.  The fields \<open>label\<close> and \<open>description\<close> are display
  strings that no computation reads; they are left out.  A field whose source name
  is a constant of HOL (\<open>min\<close>, \<open>max\<close>, \<open>default\<close>) carries the prefix \<open>p_\<close>, as do
  the other fields of \<open>ParamDef\<close>.  The descriptor of the Cauchy family is
  \<open>Cauchy_dist\<close>, as \<open>Cauchy\<close> is a constant of HOL.
\<close>

record ParamDef =
  p_name :: string
  p_min :: real
  p_max :: real
  p_step :: real
  p_default :: real

datatype kind = Continuous | Discrete

record Distribution =
  name :: string
  kind :: kind
  params :: "ParamDef list"
  support :: "jsnum list \<Rightarrow> jsnum \<times> jsnum"
  pdf :: "jsnum \<Rightarrow> jsnum list \<Rightarrow> jsnum"

definition mkParam :: "string \<Rightarrow> real \<Rightarrow> real \<Rightarrow> real \<Rightarrow> real \<Rightarrow> ParamDef" where
  "mkParam n lo hi st d = \<lparr>p_name = n, p_min = lo, p_max = hi, p_step = st, p_default = d\<rparr>"

section \<open>Continuous distributions\<close>

definition Normal :: Distribution where
  "Normal =
     \<lparr>name = ''Normal'', kind = Continuous,
      params = [mkParam ''mu'' (- 10) 10 0.1 0, mkParam ''sigma'' 0.1 10 0.1 1],
      support = (\<lambda>ps. let mu = arg ps 0; sigma = arg ps 1
                      in (mu - Fin 4 * sigma, mu + Fin 4 * sigma)),
      pdf = (\<lambda>x ps. let mu = arg ps 0; sigma = arg ps 1 in normalPDF x mu sigma)\<rparr>"

definition Beta :: Distribution where
  "Beta =
     \<lparr>name = ''Beta'', kind = Continuous,
      params = [mkParam ''alpha'' 0.1 10 0.1 2, mkParam ''beta'' 0.1 10 0.1 5],
      support = (\<lambda>ps. (Fin 0, Fin 1)),
      pdf = (\<lambda>x ps. let alpha = arg ps 0; beta = arg ps 1
                    in if x \<le> Fin 0 \<or> Fin 1 \<le> x then Fin 0
                       else Math_exp ((alpha - Fin 1) * Math_log x
                              + (beta - Fin 1) * Math_log (Fin 1 - x) - logBeta alpha beta))\<rparr>"

definition Gamma :: Distribution where
  "Gamma =
     \<lparr>name = ''Gamma'', kind = Continuous,
      params = [mkParam ''alpha'' 0.1 10 0.1 2, mkParam ''beta'' 0.1 5 0.1 1],
      support = (\<lambda>ps. let beta = arg ps 1 in (Fin 0, Fin 20 / beta)),
      pdf = (\<lambda>x ps. let alpha = arg ps 0; beta = arg ps 1
                    in if x \<le> Fin 0 then Fin 0
                       else Math_exp (alpha * Math_log beta + (alpha - Fin 1) * Math_log x
                              - beta * x - logGamma alpha))\<rparr>"

definition HalfNormal :: Distribution where
  "HalfNormal =
     \<lparr>name = ''HalfNormal'', kind = Continuous,
      params = [mkParam ''sigma'' 0.1 10 0.1 1],
      support = (\<lambda>ps. let sigma = arg ps 0 in (Fin 0, Fin 4 * sigma)),
      pdf = (\<lambda>x ps. let sigma = arg ps 0
                    in if x < Fin 0 then Fin 0
                       else (Fin 2 / (sigma * SQRT2PI))
                              * Math_exp (Fin (- 0.5) * Math_pow (x / sigma) (Fin 2)))\<rparr>"

definition Exponential :: Distribution where
  "Exponential =
     \<lparr>name = ''Exponential'', kind = Continuous,
      params = [mkParam ''lam'' 0.1 5 0.1 1],
      support = (\<lambda>ps. let lam = arg ps 0 in (Fin 0, Fin 6 / lam)),
      pdf = (\<lambda>x ps. let lam = arg ps 0
                    in if x < Fin 0 then Fin 0 else lam * Math_exp (- lam * x))\<rparr>"

definition Uniform :: Distribution where
  "Uniform =
     \<lparr>name = ''Uniform'', kind = Continuous,
      params = [mkParam ''lower'' (- 10) 9 0.5 0, mkParam ''upper'' (- 9) 10 0.5 1],
      support = (\<lambda>ps. let lower = arg ps 0; upper = arg ps 1
                      in (lower - Fin 0.5, upper + Fin 0.5)),
      pdf = (\<lambda>x ps. let lower = arg ps 0; upper = arg ps 1
                    in if upper \<le> lower then Fin 0
                       else if lower \<le> x \<and> x \<le> upper then Fin 1 / (upper - lower)
                       else Fin 0)\<rparr>"

definition StudentT :: Distribution where
  "StudentT =
     \<lparr>name = ''StudentT'', kind = Continuous,
      params = [mkParam ''nu'' 1 30 0.5 5, mkParam ''mu'' (- 5) 5 0.1 0,
                mkParam ''sigma'' 0.1 5 0.1 1],
      support = (\<lambda>ps. let mu = arg ps 1; sigma = arg ps 2
                      in (mu - Fin 5 * sigma, mu + Fin 5 * sigma)),
      pdf = (\<lambda>x ps. let nu = arg ps 0; mu = arg ps 1; sigma = arg ps 2;
                        z = (x - mu) / sigma
                    in Math_exp (logGamma ((nu + Fin 1) / Fin 2) - logGamma (nu / Fin 2))
                         / (Math_sqrt (nu * Math_PI) * sigma)
                         * Math_pow (Fin 1 + z * z / nu) (- (nu + Fin 1) / Fin 2))\<rparr>"

definition LogNormal :: Distribution where
  "LogNormal =
     \<lparr>name = ''LogNormal'', kind = Continuous,
      params = [mkParam ''mu'' (- 2) 3 0.1 0, mkParam ''sigma'' 0.1 2 0.05 0.5],
      support = (\<lambda>ps. let mu = arg ps 0; sigma = arg ps 1
                      in (Fin 0, Math_exp (mu + Fin 4 * sigma))),
      pdf = (\<lambda>x ps. let mu = arg ps 0; sigma = arg ps 1
                    in if x \<le> Fin 0 then Fin 0
                       else Math_exp (Fin (- 0.5) * Math_pow ((Math_log x - mu) / sigma) (Fin 2))
                              / (x * sigma * SQRT2PI))\<rparr>"

definition Cauchy_dist :: Distribution where
  "Cauchy_dist =
     \<lparr>name = ''Cauchy'', kind = Continuous,
      params = [mkParam ''alpha'' (- 5) 5 0.1 0, mkParam ''beta'' 0.1 5 0.1 1],
      support = (\<lambda>ps. let alpha = arg ps 0; beta = arg ps 1
                      in (alpha - Fin 8 * beta, alpha + Fin 8 * beta)),
      pdf = (\<lambda>x ps. let alpha = arg ps 0; beta = arg ps 1; z = (x - alpha) / beta
                    in Fin 1 / (Math_PI * beta * (Fin 1 + z * z)))\<rparr>"

definition Laplace :: Distribution where
  "Laplace =
     \<lparr>name = ''Laplace'', kind = Continuous,
      params = [mkParam ''mu'' (- 5) 5 0.1 0, mkParam ''b'' 0.1 5 0.1 1],
      support = (\<lambda>ps. let mu = arg ps 0; b = arg ps 1
                      in (mu - Fin 6 * b, mu + Fin 6 * b)),
      pdf = (\<lambda>x ps. let mu = arg ps 0; b = arg ps 1
                    in Math_exp (- \<bar>x - mu\<bar> / b) / (Fin 2 * b))\<rparr>"

definition Weibull :: Distribution where
  "Weibull =
     \<lparr>name = ''Weibull'', kind = Continuous,
      params = [mkParam ''alpha'' 0.1 10 0.1 1.5, mkParam ''beta'' 0.1 5 0.1 1],
      support = (\<lambda>ps. let beta = arg ps 1 in (Fin 0, beta * Fin 4)),
      pdf = (\<lambda>x ps. let alpha = arg ps 0; beta = arg ps 1
                    in if x \<le> Fin 0 then Fin 0
                       else (alpha / beta) * Math_pow (x / beta) (alpha - Fin 1)
                              * Math_exp (- Math_pow (x / beta) alpha))\<rparr>"

definition Triangular :: Distribution where
  "Triangular =
     \<lparr>name = ''Triangular'', kind = Continuous,
      params = [mkParam ''lower'' (- 10) 5 0.5 0, mkParam ''c'' (- 9) 9 0.5 0.5,
                mkParam ''upper'' (- 5) 10 0.5 1],
      support = (\<lambda>ps. let lower = arg ps 0; upper = arg ps 2
                      in (lower - Fin 0.2, upper + Fin 0.2)),
      pdf = (\<lambda>x ps. let lower = arg ps 0; c = arg ps 1; upper = arg ps 2
                    in if upper \<le> lower \<or> c < lower \<or> upper < c then Fin 0
                       else if x < lower \<or> upper < x then Fin 0
                       else if x < c
                         then (Fin 2 * (x - lower)) / ((upper - lower) * (c - lower))
                       else if strict_eq x c then Fin 2 / (upper - lower)
                       else (Fin 2 * (upper - x)) / ((upper - lower) * (upper - c)))\<rparr>"

definition SkewNormal :: Distribution where
  "SkewNormal =
     \<lparr>name = ''SkewNormal'', kind = Continuous,
      params = [mkParam ''mu'' (- 5) 5 0.1 0, mkParam ''sigma'' 0.1 5 0.1 1,
                mkParam ''alpha'' (- 10) 10 0.5 3],
      support = (\<lambda>ps. let mu = arg ps 0; sigma = arg ps 1
                      in (mu - Fin 4 * sigma, mu + Fin 4 * sigma)),
      pdf = (\<lambda>x ps. let mu = arg ps 0; sigma = arg ps 1; alpha = arg ps 2;
                        z = (x - mu) / sigma
                    in (Fin 2 / sigma) * normalPDF z (Fin 0) (Fin 1) * normalCDF (alpha * z))\<rparr>"

definition InverseGamma :: Distribution where
  "InverseGamma =
     \<lparr>name = ''InverseGamma'', kind = Continuous,
      params = [mkParam ''alpha'' 0.5 10 0.1 2, mkParam ''beta'' 0.1 10 0.1 1],
      support = (\<lambda>ps. let alpha = arg ps 0; beta = arg ps 1
                      in (Fin 0, beta / (alpha - Fin 1) * Fin 8)),
      pdf = (\<lambda>x ps. let alpha = arg ps 0; beta = arg ps 1
                    in if x \<le> Fin 0 then Fin 0
                       else Math_exp (alpha * Math_log beta - logGamma alpha
                              - (alpha + Fin 1) * Math_log x - beta / x))\<rparr>"

definition Logistic :: Distribution where
  "Logistic =
     \<lparr>name = ''Logistic'', kind = Continuous,
      params = [mkParam ''mu'' (- 5) 5 0.1 0, mkParam ''s'' 0.1 5 0.1 1],
      support = (\<lambda>ps. let mu = arg ps 0; s = arg ps 1
                      in (mu - Fin 7 * s, mu + Fin 7 * s)),
      pdf = (\<lambda>x ps. let mu = arg ps 0; s = arg ps 1; z = Math_exp (- (x - mu) / s)
                    in z / (s * Math_pow (Fin 1 + z) (Fin 2)))\<rparr>"

section \<open>Discrete distributions\<close>

text \<open>
  \<open>binomCoeff_returns\<close> below shows that \<open>binomCoeff\<close> returns on every input, so
  \<open>the\<close> is only ever applied to a \<open>Some\<close>.
\<close>

definition Binomial :: Distribution where
  "Binomial =
     \<lparr>name = ''Binomial'', kind = Discrete,
      params = [mkParam ''n'' 1 50 1 10, mkParam ''p'' 0.01 0.99 0.01 0.5],
      support = (\<lambda>ps. let n = arg ps 0 in (Fin (- 0.5), n + Fin 0.5)),
      pdf = (\<lambda>x ps. let n = arg ps 0; p = arg ps 1; k = Math_round x
                    in if k < Fin 0 \<or> n < k then Fin 0
                       else the (binomCoeff n k) * Math_pow p k * Math_pow (Fin 1 - p) (n - k))\<rparr>"

definition Poisson :: Distribution where
  "Poisson =
     \<lparr>name = ''Poisson'', kind = Discrete,
      params = [mkParam ''mu'' 0.5 30 0.5 5],
      support = (\<lambda>ps. let mu = arg ps 0
                      in (Fin (- 0.5),
                          Math_max (Fin 20) (mu + Fin 5 * Math_sqrt mu) + Fin 0.5)),
      pdf = (\<lambda>x ps. let mu = arg ps 0; k = Math_round x
                    in if k < Fin 0 then Fin 0
                       else Math_exp (k * Math_log mu - mu - logGamma (k + Fin 1)))\<rparr>"

definition NegativeBinomial :: Distribution where
  "NegativeBinomial =
     \<lparr>name = ''NegativeBinomial'', kind = Discrete,
      params = [mkParam ''n'' 1 30 1 5, mkParam ''p'' 0.01 0.99 0.01 0.5],
      support = (\<lambda>ps. let n = arg ps 0; p = arg ps 1
                      in (Fin (- 0.5),
                          Math_ceil (n * (Fin 1 - p) / p
                                       + Fin 4 * Math_sqrt (n * (Fin 1 - p) / (p * p)))
                            + Fin 0.5)),
      pdf = (\<lambda>x ps. let n = arg ps 0; p = arg ps 1; k = Math_round x
                    in if k < Fin 0 then Fin 0
                       else Math_exp (logGamma (k + n) - logGamma n - logGamma (k + Fin 1)
                              + n * Math_log p + k * Math_log (Fin 1 - p)))\<rparr>"

definition Geometric :: Distribution where
  "Geometric =
     \<lparr>name = ''Geometric'', kind = Discrete,
      params = [mkParam ''p'' 0.01 0.99 0.01 0.3],
      support = (\<lambda>ps. (Fin 0.5, Fin 20.5)),
      pdf = (\<lambda>x ps. let p = arg ps 0; k = Math_round x
                    in if k < Fin 1 then Fin 0
                       else p * Math_pow (Fin 1 - p) (k - Fin 1))\<rparr>"

definition DiscreteUniform :: Distribution where
  "DiscreteUniform =
     \<lparr>name = ''DiscreteUniform'', kind = Discrete,
      params = [mkParam ''lower'' (- 20) 0 1 1, mkParam ''upper'' 1 20 1 6],
      support = (\<lambda>ps. let lower = arg ps 0; upper = arg ps 1
                      in (lower - Fin 0.5, upper + Fin 0.5)),
      pdf = (\<lambda>x ps. let lower = arg ps 0; upper = arg ps 1; k = Math_round x
                    in if k < lower \<or> upper < k \<or> upper < lower then Fin 0
                       else Fin 1 / (upper - lower + Fin 1))\<rparr>"

definition Bernoulli :: Distribution where
  "Bernoulli =
     \<lparr>name = ''Bernoulli'', kind = Discrete,
      params = [mkParam ''p'' 0.01 0.99 0.01 0.5],
      support = (\<lambda>ps. (Fin (- 0.5), Fin 1.5)),
      pdf = (\<lambda>x ps. let p = arg ps 0; k = Math_round x
                    in if strict_eq k (Fin 0) then Fin 1 - p
                       else if strict_eq k (Fin 1) then p
                       else Fin 0)\<rparr>"

definition DISTRIBUTIONS :: "Distribution list" where
  "DISTRIBUTIONS =
     [Normal, Beta, Gamma, HalfNormal, Exponential, Uniform,
      StudentT, LogNormal, Cauchy_dist, Laplace, Weibull, Triangular,
      SkewNormal, InverseGamma, Logistic,
      Binomial, Poisson, NegativeBinomial, Geometric, DiscreteUniform, Bernoulli]"

text \<open>
  A parameter vector is valid for a family when it has one entry per \<open>ParamDef\<close>
  and each entry lies within that parameter's declared \<open>min\<close> and \<open>max\<close>.
\<close>

definition in_range :: "ParamDef \<Rightarrow> jsnum \<Rightarrow> bool" where
  "in_range d v = (Fin (p_min d) \<le> v \<and> v \<le> Fin (p_max d))"

definition valid_params :: "Distribution \<Rightarrow> jsnum list \<Rightarrow> bool" where
  "valid_params d ps = list_all2 in_range (params d) ps"

section \<open>The point sampler\<close>

record Point =
  pt_x :: jsnum
  pt_y :: jsnum

text \<open>
  The loop over the integers of a discrete window runs while \<open>k <= hi_i\<close>; it never
  ends when \<open>hi_i\<close> is \<open>Infinity\<close>, so it is a partial function and \<open>computePoints\<close>
  returns \<open>None\<close> when it does not return.  The point count \<open>numPoints\<close> is a natural
  number.  The source's \<open>dist\<close> is written \<open>d\<close>, as \<open>dist\<close> is a constant of
  HOL.
\<close>

partial_function (option) discrete_loop ::
    "(jsnum \<Rightarrow> jsnum) \<Rightarrow> jsnum \<Rightarrow> jsnum \<Rightarrow> Point list \<Rightarrow> Point list option" where
  "discrete_loop f k hi_i points =
     (if k \<le> hi_i
      then discrete_loop f (k + Fin 1) hi_i (points @ [\<lparr>pt_x = k, pt_y = f k\<rparr>])
      else Some points)"

function continuous_loop ::
    "(jsnum \<Rightarrow> jsnum) \<Rightarrow> jsnum \<Rightarrow> jsnum \<Rightarrow> nat \<Rightarrow> nat \<Rightarrow> Point list \<Rightarrow> Point list" where
  "continuous_loop f lo step numPoints i points =
     (if i \<le> numPoints
      then (let x = lo + Fin (real i) * step;
                y = f x
            in continuous_loop f lo step numPoints (Suc i)
                 (points @ [\<lparr>pt_x = toFixed6 x, pt_y = (if isFinite y then y else Fin 0)\<rparr>]))
      else points)"
  by pat_completeness auto

termination continuous_loop
  by (relation "measure (\<lambda>(f, lo, step, numPoints, i, points). Suc numPoints - i)") auto

definition computePoints :: "Distribution \<Rightarrow> jsnum list \<Rightarrow> nat \<Rightarrow> Point list option" where
  "computePoints d ps numPoints =
     (case support d ps of
        (lo, hi) \<Rightarrow>
          if kind d = Discrete
          then (let lo_i = Math_ceil (lo + Fin 0.5);
                    hi_i = Math_floor (hi - Fin 0.5)
                in discrete_loop (\<lambda>k. pdf d k ps) lo_i hi_i [])
          else (let step = (hi - lo) / Fin (real numPoints)
                in Some (continuous_loop (\<lambda>x. pdf d x ps) lo step numPoints 0 [])))"

section \<open>Predicates of the statements\<close>

text \<open>
  A number is not negative when the comparison \<open>v < 0\<close> fails: it is \<open>NaN\<close>,
  \<open>+Infinity\<close> or a finite number that is at least \<open>0\<close>.
\<close>

definition not_negative :: "jsnum \<Rightarrow> bool" where
  "not_negative v = (\<not> v < Fin 0)"

section \<open>Basic facts about the number model\<close>

declare logGamma.simps [simp del]
declare continuous_loop.simps [simp del]

lemma MAXR_big: "10 ^ 30 < MAXR"
  by (simp add: MAXR_def)

lemma rnd_fin: "\<bar>r\<bar> < MAXR \<Longrightarrow> rnd r = Fin r"
  by (auto simp: rnd_def)

lemma rnd_small [simp]: "\<bar>r\<bar> \<le> 10 ^ 30 \<Longrightarrow> rnd r = Fin r"
  using MAXR_big by (intro rnd_fin) linarith

lemma rnd_uminus: "rnd (- r) = - rnd r"
  using MAXR_pos by (auto simp: rnd_def)

lemma uminus_times: "(- a) * b = - (a * (b::jsnum))"
  by (cases a; cases b) (auto simp: rnd_uminus)

lemma uminus_uminus [simp]: "- (- (a::jsnum)) = a"
  by (cases a) auto

lemma abs_uminus [simp]: "\<bar>- (a::jsnum)\<bar> = \<bar>a\<bar>"
  by (cases a) auto

lemma Fin_m1_times: "Fin (- 1) * y = - (Fin 1 * y)"
  using uminus_times [of "Fin 1" y] by simp

section \<open>The degenerate Uniform family\<close>

text \<open>
  Claim C5.  For the Uniform family with \<open>upper \<le> lower\<close> (for example \<open>lower = 1\<close>,
  \<open>upper = 0\<close>), \<open>pdf(x, [lower, upper])\<close> is \<open>0\<close> for every \<open>x\<close>.  The model has no
  error value: every path of \<open>pdf\<close> returns a number.
\<close>

theorem Uniform_pdf_degenerate:
  "upper \<le> lower \<Longrightarrow> pdf Uniform x [lower, upper] = Fin 0"
  by (simp add: Uniform_def arg_def)

theorem Uniform_pdf_degenerate_witness:
  "Fin 0 \<le> Fin 1 \<and> pdf Uniform (Fin 0.5) [Fin 1, Fin 0] = Fin 0"
  using Uniform_pdf_degenerate [of "Fin 0" "Fin 1" "Fin 0.5"] by simp

section \<open>Discrete mass functions round their argument\<close>

lemma Math_round_idem [simp]: "Math_round (Math_round x) = Math_round x"
  by (cases x) auto

lemma discrete_names:
  "d \<in> set DISTRIBUTIONS \<Longrightarrow> kind d = Discrete \<Longrightarrow>
     d = Binomial \<or> d = Poisson \<or> d = NegativeBinomial \<or> d = Geometric
       \<or> d = DiscreteUniform \<or> d = Bernoulli"
  by (auto simp: DISTRIBUTIONS_def Normal_def Beta_def Gamma_def HalfNormal_def Exponential_def
      Uniform_def StudentT_def LogNormal_def Cauchy_dist_def Laplace_def Weibull_def Triangular_def
      SkewNormal_def InverseGamma_def Logistic_def)

text \<open>
  Claim C7.  For every discrete family of the registry, every \<open>x\<close> and every
  parameter vector, \<open>pdf(x, params) = pdf(round(x), params)\<close>: the mass function
  reads \<open>x\<close> only through \<open>Math.round(x)\<close>.
\<close>

theorem discrete_pdf_round:
  "d \<in> set DISTRIBUTIONS \<Longrightarrow> kind d = Discrete \<Longrightarrow> pdf d x ps = pdf d (Math_round x) ps"
  by (drule (1) discrete_names)
     (auto simp: Binomial_def Poisson_def NegativeBinomial_def Geometric_def
        DiscreteUniform_def Bernoulli_def)

theorem discrete_pdf_round_witness:
  "Bernoulli \<in> set DISTRIBUTIONS \<and> kind Bernoulli = Discrete
     \<and> pdf Bernoulli (Fin 0.3) [Fin 0.5] = pdf Bernoulli (Math_round (Fin 0.3)) [Fin 0.5]"
  using discrete_pdf_round [of Bernoulli "Fin 0.3" "[Fin 0.5]"]
  by (simp add: DISTRIBUTIONS_def Bernoulli_def)

section \<open>The error function\<close>

lemma erf_0: "erf (Fin 0) = Fin (1 / 10 ^ 9)"
  by (simp add: erf_def Let_def)

text \<open>
  Claim C9, as amended.  \<open>erf(-x) = -erf(x)\<close> for every \<open>x\<close> other than \<open>0\<close>.  At
  \<open>0\<close> the sign is taken as \<open>+1\<close> and the polynomial does not cancel: the
  coefficients \<open>a1 + ... + a5\<close> add up to \<open>0.999999999\<close>, so \<open>erf(0)\<close> is \<open>10\<^sup>-\<^sup>9\<close> and
  not \<open>0\<close>.
\<close>

theorem erf_odd_nonzero:
  assumes "x \<noteq> Fin 0"
  shows "erf (- x) = - erf x"
proof -
  obtain y where y: "erf x = (if x < Fin 0 then Fin (- 1) else Fin 1) * y"
     "erf (- x) = (if - x < Fin 0 then Fin (- 1) else Fin 1) * y"
    by (simp add: erf_def Let_def)
  from assms
  have "x = NaN \<or> (x < Fin 0 \<and> \<not> - x < Fin 0) \<or> (\<not> x < Fin 0 \<and> - x < Fin 0)"
    by (cases x) auto
  then show ?thesis
  proof (elim disjE)
    assume "x = NaN"
    then show ?thesis by (simp add: erf_def Let_def)
  next
    assume "x < Fin 0 \<and> \<not> - x < Fin 0"
    then show ?thesis unfolding y by (simp add: Fin_m1_times)
  next
    assume "\<not> x < Fin 0 \<and> - x < Fin 0"
    then show ?thesis unfolding y by (simp add: Fin_m1_times)
  qed
qed

theorem erf_odd_nonzero_witness:
  "Fin 2 \<noteq> Fin 0 \<and> erf (- Fin 2) = - erf (Fin 2)"
  using erf_odd_nonzero [of "Fin 2"] by simp

theorem erf_zero_not_odd:
  "erf (- Fin 0) \<noteq> - erf (Fin 0) \<and> erf (Fin 0) \<noteq> Fin 0"
  by (simp add: erf_0)


section \<open>The binomial coefficient\<close>

lemma binomCoeff_loop_Fin:
  "\<exists>v. binomCoeff_loop n (Fin r) i res = Some v"
proof (induction "nat \<lceil>r\<rceil> - i" arbitrary: i res)
  case 0
  then have "\<not> real i < r" by linarith
  then show ?case by (subst binomCoeff_loop.simps) simp
next
  case (Suc m)
  then have "m = nat \<lceil>r\<rceil> - Suc i" by simp
  from Suc.hyps(1) [OF this] show ?case
    by (subst binomCoeff_loop.simps) simp
qed

lemma binomCoeff_loop_returns:
  "k \<noteq> PInf \<Longrightarrow> \<exists>v. binomCoeff_loop n k i res = Some v"
proof (cases k)
  case NaN
  then show ?thesis by (subst binomCoeff_loop.simps) simp
next
  case NInf
  then show ?thesis by (subst binomCoeff_loop.simps) simp
next
  case (Fin r)
  then show ?thesis by (simp add: binomCoeff_loop_Fin)
qed simp

lemma Math_min_PInf: "Math_min a b = PInf \<Longrightarrow> a = PInf \<and> b = PInf"
  by (cases a; cases b) (auto simp: Math_min_def split: if_splits)

lemma Math_min_commute: "Math_min a b = Math_min b a"
  by (cases a; cases b) (auto simp: Math_min_def)

text \<open>The loop of \<open>binomCoeff\<close> is only entered with a bound that is not \<open>Infinity\<close>.\<close>

lemma binomCoeff_returns: "\<exists>v. binomCoeff n k = Some v"
proof (cases "Math_min k (n - k) = PInf")
  case True
  then have "k = PInf" "n - k = PInf" by (auto dest: Math_min_PInf)
  then show ?thesis by (cases n) (auto simp: binomCoeff_def strict_eq_def)
next
  case False
  then show ?thesis by (auto simp: binomCoeff_def binomCoeff_loop_returns)
qed

text \<open>
  Claim C8.  For all integers \<open>0 \<le> k \<le> n \<le> 2\<^sup>5\<^sup>3\<close> (the range in which a number holds
  every integer exactly), \<open>binomCoeff(n, k)\<close> and \<open>binomCoeff(n, n - k)\<close> return, and
  return the same value.
\<close>

theorem binomCoeff_symmetric:
  fixes n k :: int
  assumes "0 \<le> k" "k \<le> n" "n \<le> 2 ^ 53"
  shows "\<exists>v. binomCoeff (Fin (of_int n)) (Fin (of_int k)) = Some v
            \<and> binomCoeff (Fin (of_int n)) (Fin (of_int (n - k))) = Some v"
proof -
  have "real_of_int n \<le> real_of_int (2 ^ 53)" using assms(3) by (simp only: of_int_le_iff)
  then have n: "real_of_int n \<le> 10 ^ 30" by simp
  have a: "rnd (real_of_int n - real_of_int k) = Fin (real_of_int (n - k))"
    using assms(1,2) n by (intro trans [OF rnd_small]) auto
  have b: "rnd (real_of_int n - real_of_int (n - k)) = Fin (real_of_int k)"
    using assms(1,2) n by (intro trans [OF rnd_small]) auto
  have "binomCoeff (Fin (of_int n)) (Fin (of_int k))
          = binomCoeff (Fin (of_int n)) (Fin (of_int (n - k)))"
    using assms(1,2) a b
    by (auto simp: binomCoeff_def strict_eq_def Math_min_commute)
  with binomCoeff_returns [of "Fin (of_int n)" "Fin (of_int k)"] show ?thesis by auto
qed

theorem binomCoeff_symmetric_witness:
  "(0::int) \<le> 2 \<and> (2::int) \<le> 5 \<and> (5::int) \<le> 2 ^ 53 \<and>
   (\<exists>v. binomCoeff (Fin (of_int 5)) (Fin (of_int 2)) = Some v
            \<and> binomCoeff (Fin (of_int 5)) (Fin (of_int (5 - 2))) = Some v)"
  using binomCoeff_symmetric [of 2 5] by simp

section \<open>The range of the error function\<close>

lemma abs_mult_unit: "\<bar>u\<bar> \<le> A \<Longrightarrow> 0 \<le> t \<Longrightarrow> t \<le> 1 \<Longrightarrow> \<bar>u * t\<bar> \<le> (A::real)"
proof -
  assume a: "\<bar>u\<bar> \<le> A" "0 \<le> t" "t \<le> 1"
  have "\<bar>u * t\<bar> = \<bar>u\<bar> * t" using a by (simp add: abs_mult)
  also have "\<dots> \<le> \<bar>u\<bar> * 1" using a by (intro mult_left_mono) auto
  finally show ?thesis using a by simp
qed

lemma erf_poly_bounds:
  fixes t :: real
  assumes "0 \<le> t" "t \<le> 1"
  defines "Q \<equiv> (((1.061405429 * t + (- 1.453152027)) * t + 1.421413741) * t + (- 0.284496736)) * t + 0.254829592"
  shows "0 \<le> Q" "Q \<le> 1"
proof -
  have tt: "0 \<le> t * t" "t * t \<le> t" using assms by (auto intro: mult_left_le)
  define c where "c = (1.061405429 * t + (- 1.453152027)) * t + 1.421413741"
  have "0 \<le> 1.061405429 * ((t - 0.68) * (t - 0.68))" by simp
  then have c: "0.92 \<le> c" using assms(1,2) unfolding c_def by (simp add: algebra_simps)
  have "0.92 * (t * t) \<le> c * (t * t)" using c tt by (intro mult_right_mono) auto
  moreover have "0 \<le> 0.92 * ((t - 0.15) * (t - 0.15))" by simp
  moreover have "Q = c * (t * t) + (- 0.284496736) * t + 0.254829592"
    unfolding Q_def c_def by (simp add: algebra_simps)
  ultimately show "0 \<le> Q" using assms(1,2) by (simp add: algebra_simps)
  define R where "R = 0.745170407 + 1.029667143 * t + (- 0.391746598) * (t * t) + 1.061405429 * (t * t * t)"
  have "0 \<le> t * t * t" using assms by simp
  then have "0 \<le> R" using tt assms unfolding R_def by simp
  then have "0 \<le> (1 - t) * R" using assms by simp
  moreover have "1 - Q = 1 / 10 ^ 9 + (1 - t) * R"
    unfolding Q_def R_def by (simp add: field_simps)
  ultimately show "Q \<le> 1" by simp
qed


lemma Fin_times_small: "\<bar>a\<bar> \<le> 10 \<Longrightarrow> 0 \<le> t \<Longrightarrow> t \<le> 1 \<Longrightarrow> Fin a * Fin t = Fin (a * t)"
  using abs_mult_unit [of a 10 t] by simp

lemma erf_poly_val:
  fixes t :: real
  assumes "0 \<le> t" "t \<le> 1"
  shows "\<exists>P. (((((Fin 1.061405429 * Fin t + Fin (- 1.453152027)) * Fin t) + Fin 1.421413741) * Fin t
               + Fin (- 0.284496736)) * Fin t + Fin 0.254829592) * Fin t = Fin P \<and> 0 \<le> P \<and> P \<le> 1"
proof -
  define h1 where "h1 = 1.061405429 * t + (- 1.453152027)"
  define h2 where "h2 = h1 * t + 1.421413741"
  define h3 where "h3 = h2 * t + (- 0.284496736)"
  define h4 where "h4 = h3 * t + 0.254829592"
  have b1: "\<bar>h1\<bar> \<le> 2" using assms unfolding h1_def by simp
  have b1': "\<bar>h1 * t\<bar> \<le> 2" using abs_mult_unit [OF b1 assms] .
  have b2: "\<bar>h2\<bar> \<le> 4" using b1' unfolding h2_def by simp
  have b2': "\<bar>h2 * t\<bar> \<le> 4" using abs_mult_unit [OF b2 assms] .
  have b3: "\<bar>h3\<bar> \<le> 5" using b2' unfolding h3_def by simp
  have b3': "\<bar>h3 * t\<bar> \<le> 5" using abs_mult_unit [OF b3 assms] .
  have b4: "\<bar>h4\<bar> \<le> 6" using b3' unfolding h4_def by simp
  have e1: "Fin 1.061405429 * Fin t + Fin (- 1.453152027) = Fin h1"
    using assms unfolding h1_def by simp
  have e2: "Fin h1 * Fin t + Fin 1.421413741 = Fin h2"
    using assms b1 b1' unfolding h2_def by (simp add: Fin_times_small)
  have e3: "Fin h2 * Fin t + Fin (- 0.284496736) = Fin h3"
    using assms b2 b2' unfolding h3_def by (simp add: Fin_times_small)
  have e4: "Fin h3 * Fin t + Fin 0.254829592 = Fin h4"
    using assms b3 b3' unfolding h4_def by (simp add: Fin_times_small)
  have b4': "\<bar>h4 * t\<bar> \<le> 6" using abs_mult_unit [OF b4 assms] .
  have e5: "Fin h4 * Fin t = Fin (h4 * t)"
    using assms b4 b4' by simp
  have Q: "0 \<le> h4" "h4 \<le> 1"
    using erf_poly_bounds [OF assms] unfolding h4_def h3_def h2_def h1_def by simp_all
  have "0 \<le> h4 * t" "h4 * t \<le> 1"
    using Q assms by (auto intro: mult_le_one)
  then show ?thesis unfolding e1 e2 e3 e4 e5 by blast
qed

lemma erf_t:
  assumes "0 \<le> a"
  shows "\<exists>t. Fin 1 / (Fin 1 + Fin 0.3275911 * Fin a) = Fin t \<and> 0 \<le> t \<and> t \<le> 1"
proof -
  have pa: "0 \<le> 0.3275911 * a" using assms by simp
  consider "rnd (0.3275911 * a) = PInf" | "rnd (0.3275911 * a) = Fin (0.3275911 * a)"
    using rnd_cases [of "0.3275911 * a"] pa MAXR_pos by auto
  then show ?thesis
  proof cases
    case 1
    then show ?thesis by simp
  next
    case 2
    consider "rnd (1 + 0.3275911 * a) = PInf" | "rnd (1 + 0.3275911 * a) = Fin (1 + 0.3275911 * a)"
      using rnd_cases [of "1 + 0.3275911 * a"] pa MAXR_pos by auto
    then show ?thesis
    proof cases
      case 1
      with 2 show ?thesis by simp
    next
      case b: 2
      define u where "u = 1 / (1 + 0.3275911 * a)"
      have u: "0 \<le> u" "u \<le> 1" using pa unfolding u_def by auto
      then have "rnd u = Fin u" by simp
      moreover have "1 + 0.3275911 * a \<noteq> 0" using pa by linarith
      ultimately have "Fin 1 / (Fin 1 + Fin 0.3275911 * Fin a) = Fin u"
        using 2 b unfolding u_def by simp
      then show ?thesis using u by blast
    qed
  qed
qed

lemma erf_exp:
  "\<exists>e. Math_exp (- Fin a * Fin a) = Fin e \<and> 0 \<le> e \<and> e \<le> 1"
proof -
  have n: "- a * a \<le> 0" by (simp add: mult_nonneg_nonneg)  
  consider "rnd (- a * a) = NInf" | "rnd (- a * a) = Fin (- a * a)"
    using rnd_cases [of "- a * a"] n MAXR_pos by auto
  then show ?thesis
  proof cases
    case 1
    then show ?thesis by simp
  next
    case 2
    define e where "e = exp (- a * a)"
    have e: "0 \<le> e" "e \<le> 1" using n unfolding e_def by auto
    then have "rnd e = Fin e" by simp
    then have "Math_exp (- Fin a * Fin a) = Fin e"
      using 2 unfolding e_def by simp
    then show ?thesis using e by blast
  qed
qed

lemma erf_body_range:
  assumes "0 \<le> a"
  shows "\<exists>y. (let a1 = Fin 0.254829592; a2 = Fin (- 0.284496736); a3 = Fin 1.421413741;
          a4 = Fin (- 1.453152027); a5 = Fin 1.061405429; p = Fin 0.3275911;
          x = Fin a;
          t = Fin 1.0 / (Fin 1.0 + p * x)
      in Fin 1.0 - (((((a5 * t + a4) * t) + a3) * t + a2) * t + a1) * t * Math_exp (- x * x)) = Fin y \<and> 0 \<le> y \<and> y \<le> 1"
proof -
  obtain t where t: "Fin 1 / (Fin 1 + Fin 0.3275911 * Fin a) = Fin t" "0 \<le> t" "t \<le> 1"
    using erf_t [OF assms] by blast
  obtain P where P: "(((((Fin 1.061405429 * Fin t + Fin (- 1.453152027)) * Fin t) + Fin 1.421413741) * Fin t
               + Fin (- 0.284496736)) * Fin t + Fin 0.254829592) * Fin t = Fin P" "0 \<le> P" "P \<le> 1"
    using erf_poly_val [OF t(2,3)] by blast
  obtain e where e: "Math_exp (- Fin a * Fin a) = Fin e" "0 \<le> e" "e \<le> 1"
    using erf_exp by blast
  have pe: "0 \<le> P * e" "P * e \<le> 1" using P e by (auto intro: mult_le_one)
  then have "Fin 1 - Fin P * Fin e = Fin (1 - P * e)" by simp
  moreover have "0 \<le> 1 - P * e" "1 - P * e \<le> 1" using pe by auto
  ultimately show ?thesis using t(1) P(1) e(1) by (simp add: Let_def)
qed

lemma erf_Fin_range:
  assumes "x \<noteq> NaN"
  shows "\<exists>e. erf x = Fin e \<and> - 1 \<le> e \<and> e \<le> 1"
proof (cases x)
  case (Fin r)
  obtain y where y: "erf x = (if x < Fin 0 then Fin (- 1) else Fin 1) * Fin y" "0 \<le> y" "y \<le> 1"
    using erf_body_range [of "\<bar>r\<bar>"] Fin by (auto simp: erf_def Let_def)
  then show ?thesis by auto
next
  case PInf
  then show ?thesis by (simp add: erf_def Let_def)
next
  case NInf
  then show ?thesis by (simp add: erf_def Let_def)
qed (use assms in simp)

lemma rnd_not_NaN [simp]: "rnd r \<noteq> NaN"
  by (simp add: rnd_def)

lemma div_SQRT2_not_NaN: "x \<noteq> NaN \<Longrightarrow> x / SQRT2 \<noteq> NaN"
  by (cases x) (auto simp: SQRT2_def)

text \<open>
  Claim C10.  For every \<open>x\<close> that is a number (not \<open>NaN\<close>), \<open>erf(x)\<close> lies in
  \<open>[-1, 1]\<close>, and so \<open>normalCDF(x)\<close> lies in \<open>[0, 1]\<close>.
\<close>

theorem erf_range:
  assumes "x \<noteq> NaN"
  shows "Fin (- 1) \<le> erf x \<and> erf x \<le> Fin 1 \<and> Fin 0 \<le> normalCDF x \<and> normalCDF x \<le> Fin 1"
proof -
  obtain e where e: "erf x = Fin e" "- 1 \<le> e" "e \<le> 1"
    using erf_Fin_range [OF assms] by blast
  obtain e' where e': "erf (x / SQRT2) = Fin e'" "- 1 \<le> e'" "e' \<le> 1"
    using erf_Fin_range [OF div_SQRT2_not_NaN [OF assms]] by blast
  show ?thesis using e e' by (simp add: normalCDF_def)
qed

theorem erf_range_witness:
  "Fin 3 \<noteq> NaN \<and> Fin (- 1) \<le> erf (Fin 3) \<and> erf (Fin 3) \<le> Fin 1
     \<and> Fin 0 \<le> normalCDF (Fin 3) \<and> normalCDF (Fin 3) \<le> Fin 1"
  using erf_range [of "Fin 3"] by simp


section \<open>The loops of the point sampler\<close>

lemma continuous_loop_length:
  "length (continuous_loop f lo step n i pts) = length pts + (Suc n - i)"
proof (induction f lo step n i pts rule: continuous_loop.induct)
  case (1 f lo step numPoints i points)
  show ?case
  proof (cases "i \<le> numPoints")
    case True
    then show ?thesis
      using "1" [OF True refl refl] by (subst continuous_loop.simps) (simp add: Let_def)
  next
    case False
    then show ?thesis by (subst continuous_loop.simps) simp
  qed
qed

lemma discrete_loop_stop: "\<not> k \<le> hi_i \<Longrightarrow> discrete_loop f k hi_i pts = Some pts"
  by (subst discrete_loop.simps) simp

lemma discrete_loop_Fin:
  assumes "- MAXR < real_of_int m" "b < MAXR"
  shows "discrete_loop f (Fin (of_int m)) (Fin b) pts
           = Some (pts @ map (\<lambda>j. \<lparr>pt_x = Fin (of_int j), pt_y = f (Fin (of_int j))\<rparr>) [m..\<lfloor>b\<rfloor>])"
  using assms(1)
proof (induction "nat (\<lfloor>b\<rfloor> - m + 1)" arbitrary: m pts)
  case 0
  then have "\<lfloor>b\<rfloor> < m" by simp
  then have "\<not> real_of_int m \<le> b" by linarith
  then show ?case using \<open>\<lfloor>b\<rfloor> < m\<close> by (simp add: discrete_loop_stop)
next
  case (Suc n)
  then have le: "m \<le> \<lfloor>b\<rfloor>" by simp
  then have mb: "real_of_int m \<le> b" by linarith
  have step: "discrete_loop f (Fin (of_int m)) (Fin b) pts
      = discrete_loop f (Fin (of_int m) + Fin 1) (Fin b) (pts @ [\<lparr>pt_x = Fin (of_int m), pt_y = f (Fin (of_int m))\<rparr>])"
    using mb by (subst discrete_loop.simps) simp
  have up: "[m..\<lfloor>b\<rfloor>] = m # [m + 1..\<lfloor>b\<rfloor>]" using le by (simp add: upto_rec1)
  show ?case
  proof (cases "MAXR \<le> real_of_int m + 1")
    case True
    then have "Fin (of_int m) + Fin 1 = PInf" by (simp add: rnd_def)
    moreover have "\<lfloor>b\<rfloor> < m + 1" using True assms(2) by linarith
    ultimately show ?thesis unfolding step up by (simp add: discrete_loop_stop)
  next
    case False
    then have "Fin (of_int m) + Fin 1 = Fin (of_int (m + 1))"
      using Suc.prems by (simp add: rnd_def)
    moreover have "n = nat (\<lfloor>b\<rfloor> - (m + 1) + 1)" using Suc.hyps(2) by simp
    moreover have "- MAXR < real_of_int (m + 1)" using Suc.prems by simp
    ultimately show ?thesis unfolding step up
      using Suc.hyps(1) [of "m + 1"] by simp
  qed
qed

lemma plus_Fin_range: "a + b = Fin r \<Longrightarrow> - MAXR < r \<and> r < MAXR"
  by (cases a; cases b) (auto simp: rnd_def split: if_splits)

lemma minus_Fin_range: "a - b = Fin r \<Longrightarrow> - MAXR < r \<and> r < MAXR"
  by (cases a; cases b) (auto simp: rnd_def split: if_splits)

lemma Math_ceil_Fin: "Math_ceil v = Fin a \<Longrightarrow> \<exists>r. v = Fin r \<and> a = of_int \<lceil>r\<rceil>"
  by (cases v) auto

lemma Math_floor_Fin: "Math_floor v = Fin a \<Longrightarrow> \<exists>r. v = Fin r \<and> a = of_int \<lfloor>r\<rfloor>"
  by (cases v) auto

lemma discrete_window:
  assumes "lo_i = Math_ceil (lo + Fin 0.5)" "hi_i = Math_floor (hi - Fin 0.5)"
    and "lo_i \<noteq> NInf" "hi_i \<noteq> PInf"
  shows "\<exists>pts. discrete_loop f lo_i hi_i [] = Some pts
           \<and> length pts = card {k::int. lo_i \<le> Fin (of_int k) \<and> Fin (of_int k) \<le> hi_i}
           \<and> map pt_x pts = map (\<lambda>k. Fin (of_int k)) (sorted_list_of_set {k::int. lo_i \<le> Fin (of_int k) \<and> Fin (of_int k) \<le> hi_i})"
proof (cases "\<exists>a b. lo_i = Fin a \<and> hi_i = Fin b")
  case True
  then obtain a b where ab: "lo_i = Fin a" "hi_i = Fin b" by blast
  obtain r where r: "lo + Fin 0.5 = Fin r" "a = of_int \<lceil>r\<rceil>"
    using Math_ceil_Fin [of "lo + Fin 0.5" a] assms(1) ab by auto
  obtain r2 where r2: "hi - Fin 0.5 = Fin r2" "b = of_int \<lfloor>r2\<rfloor>"
    using Math_floor_Fin [of "hi - Fin 0.5" b] assms(2) ab by auto
  have "- MAXR < r" using plus_Fin_range [OF r(1)] by simp
  then have A: "- MAXR < real_of_int \<lceil>r\<rceil>" by linarith
  have "r2 < MAXR" using minus_Fin_range [OF r2(1)] by simp
  then have B: "real_of_int \<lfloor>r2\<rfloor> < MAXR" by linarith
  have set: "{k::int. lo_i \<le> Fin (of_int k) \<and> Fin (of_int k) \<le> hi_i} = {\<lceil>r\<rceil>..\<lfloor>r2\<rfloor>}"
    unfolding ab r r2 by auto
  show ?thesis
    unfolding set unfolding ab r r2
    by (simp add: discrete_loop_Fin [OF A B] comp_def)
next
  case False
  then have stop: "\<not> lo_i \<le> hi_i" using assms(3,4)
    by (cases lo_i; cases hi_i) auto
  have E: "{k::int. lo_i \<le> Fin (of_int k) \<and> Fin (of_int k) \<le> hi_i} = {}"
    using False assms(3,4) by (cases lo_i; cases hi_i) auto
  show ?thesis unfolding E by (simp add: discrete_loop_stop [OF stop])
qed

section \<open>Non-finite values in the output\<close>

lemma continuous_loop_finite:
  "\<forall>p \<in> set pts. isFinite (pt_y p)
     \<Longrightarrow> \<forall>p \<in> set (continuous_loop f lo step n i pts). isFinite (pt_y p)"
proof (induction f lo step n i pts rule: continuous_loop.induct)
  case (1 f lo step numPoints i points)
  show ?case
  proof (cases "i \<le> numPoints")
    case True
    then show ?thesis
      using "1.IH" [OF True refl refl] "1.prems"
      by (subst continuous_loop.simps) (simp add: Let_def)
  next
    case False
    then show ?thesis using "1.prems" by (subst continuous_loop.simps) simp
  qed
qed

text \<open>The continuous branch replaces every non-finite density by \<open>0\<close>.\<close>

lemma computePoints_continuous_finite:
  "kind d = Continuous \<Longrightarrow> computePoints d ps n = Some pts \<Longrightarrow> \<forall>p \<in> set pts. isFinite (pt_y p)"
  using continuous_loop_finite [of "[]"]
  by (auto simp: computePoints_def Let_def split: prod.splits)

text \<open>
  Claim C4 (every \<open>y\<close> in the list returned by \<open>computePoints\<close> is finite, for
  continuous and discrete families and any parameter vector) does not hold on the
  discrete branch, which pushes \<open>pdf(k, params)\<close> as it is.  For Poisson with
  \<open>mu = 0\<close> the window is \<open>[-0.5, 20.5]\<close>, the first point is at \<open>k = 0\<close>, and its
  \<open>y\<close> is \<open>exp(0 * log(0) - ...)\<close>, which is \<open>NaN\<close>.
\<close>

theorem computePoints_Poisson_NaN:
  "map_option (\<lambda>pts. (pt_x (hd pts), pt_y (hd pts))) (computePoints Poisson [Fin 0] 300) = Some (Fin 0, NaN)"
proof -
  have s: "support Poisson [Fin 0] = (Fin (- 0.5), Fin 20.5)"
    by (simp add: Poisson_def arg_def Math_max_def)
  have m: "- MAXR < real_of_int 0" "(20::real) < MAXR" using MAXR_big by auto
  have y: "pdf Poisson (Fin 0) [Fin 0] = NaN"
    by (simp add: Poisson_def arg_def)
  have "computePoints Poisson [Fin 0] 300
      = discrete_loop (\<lambda>k. pdf Poisson k [Fin 0]) (Fin (of_int 0)) (Fin 20) []"
    using s by (simp add: computePoints_def Poisson_def)
  also have "\<dots> = Some ([] @ map (\<lambda>j. \<lparr>pt_x = Fin (of_int j), pt_y = pdf Poisson (Fin (of_int j)) [Fin 0]\<rparr>) [0..\<lfloor>20::real\<rfloor>])"
    by (rule discrete_loop_Fin [OF m])
  finally show ?thesis using y by (simp add: upto_rec1 [of 0 20])
qed

section \<open>The support windows of the registry\<close>

lemma in_range_Fin: "in_range p v = (\<exists>r. v = Fin r \<and> p_min p \<le> r \<and> r \<le> p_max p)"
  by (cases v) (auto simp: in_range_def)

lemmas vp = valid_params_def list_all2_Cons1 in_range_Fin mkParam_def arg_def

lemma abs_div_le: "\<bar>a\<bar> \<le> A \<Longrightarrow> c \<le> \<bar>b\<bar> \<Longrightarrow> 0 < c \<Longrightarrow> \<bar>a / b\<bar> \<le> A / (c::real)"
  unfolding abs_divide by (intro frac_le) auto

lemma Normal_support:
  "valid_params Normal ps \<Longrightarrow> \<exists>m s. ps = [Fin m, Fin s] \<and> - 10 \<le> m \<and> m \<le> 10 \<and> 0.1 \<le> s \<and> s \<le> 10
      \<and> support Normal ps = (Fin (m - 4 * s), Fin (m + 4 * s))"
  by (auto simp: vp Normal_def)

lemma Beta_support:
  "valid_params Beta ps \<Longrightarrow> \<exists>a b. ps = [Fin a, Fin b] \<and> 0.1 \<le> a \<and> a \<le> 10 \<and> 0.1 \<le> b \<and> b \<le> 10
      \<and> support Beta ps = (Fin 0, Fin 1)"
  by (auto simp: vp Beta_def)

lemma Gamma_support:
  assumes "valid_params Gamma ps"
  shows "\<exists>a b. ps = [Fin a, Fin b] \<and> 0.1 \<le> a \<and> a \<le> 10 \<and> 0.1 \<le> b \<and> b \<le> 5
      \<and> support Gamma ps = (Fin 0, Fin (20 / b)) \<and> \<bar>20 / b\<bar> \<le> 200"
proof -
  obtain a b where ab: "ps = [Fin a, Fin b]" "0.1 \<le> a" "a \<le> 10" "0.1 \<le> b" "b \<le> 5"
    using assms by (auto simp: vp Gamma_def)
  have "\<bar>20 / b\<bar> \<le> 20 / 0.1" using ab by (intro abs_div_le) auto
  then have q: "\<bar>20 / b\<bar> \<le> 200" by simp
  then have "rnd (20 / b) = Fin (20 / b)" by (intro rnd_small) simp
  then have "support Gamma ps = (Fin 0, Fin (20 / b))" using ab by (simp add: Gamma_def arg_def)
  then show ?thesis using ab q by blast
qed

lemma HalfNormal_support:
  "valid_params HalfNormal ps \<Longrightarrow> \<exists>s. ps = [Fin s] \<and> 0.1 \<le> s \<and> s \<le> 10
      \<and> support HalfNormal ps = (Fin 0, Fin (4 * s))"
  by (auto simp: vp HalfNormal_def)

lemma Exponential_support:
  assumes "valid_params Exponential ps"
  shows "\<exists>l. ps = [Fin l] \<and> 0.1 \<le> l \<and> l \<le> 5
      \<and> support Exponential ps = (Fin 0, Fin (6 / l)) \<and> \<bar>6 / l\<bar> \<le> 60"
proof -
  obtain l where l: "ps = [Fin l]" "0.1 \<le> l" "l \<le> 5"
    using assms by (auto simp: vp Exponential_def)
  have "\<bar>6 / l\<bar> \<le> 6 / 0.1" using l by (intro abs_div_le) auto
  then have q: "\<bar>6 / l\<bar> \<le> 60" by simp
  then have "rnd (6 / l) = Fin (6 / l)" by (intro rnd_small) simp
  then have "support Exponential ps = (Fin 0, Fin (6 / l))"
    using l by (simp add: Exponential_def arg_def)
  then show ?thesis using l q by blast
qed

lemma Uniform_support:
  "valid_params Uniform ps \<Longrightarrow> \<exists>l u. ps = [Fin l, Fin u] \<and> - 10 \<le> l \<and> l \<le> 9 \<and> - 9 \<le> u \<and> u \<le> 10
      \<and> support Uniform ps = (Fin (l - 0.5), Fin (u + 0.5))"
  by (auto simp: vp Uniform_def)

lemma StudentT_support:
  "valid_params StudentT ps \<Longrightarrow> \<exists>nu m s. ps = [Fin nu, Fin m, Fin s] \<and> 1 \<le> nu \<and> nu \<le> 30
      \<and> - 5 \<le> m \<and> m \<le> 5 \<and> 0.1 \<le> s \<and> s \<le> 5
      \<and> support StudentT ps = (Fin (m - 5 * s), Fin (m + 5 * s))"
  by (auto simp: vp StudentT_def)

lemma exp_le_pow3: "x \<le> 11 \<Longrightarrow> exp (x::real) \<le> 3 ^ 11"
proof -
  assume "x \<le> 11"
  then have "exp x \<le> exp (11 * 1)" by simp
  also have "\<dots> = exp 1 ^ 11" by (simp only: exp_of_nat_mult [symmetric] of_nat_numeral)
  also have "\<dots> \<le> 3 ^ 11" using exp_le by (intro power_mono) auto
  finally show ?thesis .
qed

lemma LogNormal_support:
  assumes "valid_params LogNormal ps"
  shows "\<exists>m s. ps = [Fin m, Fin s] \<and> - 2 \<le> m \<and> m \<le> 3 \<and> 0.1 \<le> s \<and> s \<le> 2
      \<and> support LogNormal ps = (Fin 0, Fin (exp (m + 4 * s))) \<and> exp (m + 4 * s) \<le> 3 ^ 11"
proof -
  obtain m s where ms: "ps = [Fin m, Fin s]" "- 2 \<le> m" "m \<le> 3" "0.1 \<le> s" "s \<le> 2"
    using assms by (auto simp: vp LogNormal_def)
  have e: "exp (m + 4 * s) \<le> 3 ^ 11" using ms by (intro exp_le_pow3) auto
  then have "rnd (exp (m + 4 * s)) = Fin (exp (m + 4 * s))" by (intro rnd_small) simp
  then show ?thesis using ms e by (simp add: LogNormal_def arg_def)
qed

lemma Cauchy_support:
  "valid_params Cauchy_dist ps \<Longrightarrow> \<exists>a b. ps = [Fin a, Fin b] \<and> - 5 \<le> a \<and> a \<le> 5 \<and> 0.1 \<le> b \<and> b \<le> 5
      \<and> support Cauchy_dist ps = (Fin (a - 8 * b), Fin (a + 8 * b))"
  by (auto simp: vp Cauchy_dist_def)

lemma Laplace_support:
  "valid_params Laplace ps \<Longrightarrow> \<exists>m b. ps = [Fin m, Fin b] \<and> - 5 \<le> m \<and> m \<le> 5 \<and> 0.1 \<le> b \<and> b \<le> 5
      \<and> support Laplace ps = (Fin (m - 6 * b), Fin (m + 6 * b))"
  by (auto simp: vp Laplace_def)

lemma Weibull_support:
  "valid_params Weibull ps \<Longrightarrow> \<exists>a b. ps = [Fin a, Fin b] \<and> 0.1 \<le> a \<and> a \<le> 10 \<and> 0.1 \<le> b \<and> b \<le> 5
      \<and> support Weibull ps = (Fin 0, Fin (b * 4))"
  by (auto simp: vp Weibull_def)

lemma Triangular_support:
  "valid_params Triangular ps \<Longrightarrow> \<exists>l c u. ps = [Fin l, Fin c, Fin u] \<and> - 10 \<le> l \<and> l \<le> 5
      \<and> - 9 \<le> c \<and> c \<le> 9 \<and> - 5 \<le> u \<and> u \<le> 10
      \<and> support Triangular ps = (Fin (l - 0.2), Fin (u + 0.2))"
  by (auto simp: vp Triangular_def)

lemma SkewNormal_support:
  "valid_params SkewNormal ps \<Longrightarrow> \<exists>m s a. ps = [Fin m, Fin s, Fin a] \<and> - 5 \<le> m \<and> m \<le> 5
      \<and> 0.1 \<le> s \<and> s \<le> 5 \<and> - 10 \<le> a \<and> a \<le> 10
      \<and> support SkewNormal ps = (Fin (m - 4 * s), Fin (m + 4 * s))"
  by (auto simp: vp SkewNormal_def)

lemma InverseGamma_support:
  assumes "valid_params InverseGamma ps"
  shows "\<exists>a b. ps = [Fin a, Fin b] \<and> 0.5 \<le> a \<and> a \<le> 10 \<and> 0.1 \<le> b \<and> b \<le> 10
      \<and> support InverseGamma ps = (Fin 0, Fin b / Fin (a - 1) * Fin 8)"
proof -
  obtain a b where ab: "ps = [Fin a, Fin b]" "0.5 \<le> a" "a \<le> 10" "0.1 \<le> b" "b \<le> 10"
    using assms by (auto simp: vp InverseGamma_def)
  have "Fin a - Fin 1 = Fin (a - 1)" using ab by simp
  then have "support InverseGamma ps = (Fin 0, Fin b / Fin (a - 1) * Fin 8)"
    using ab(1) by (simp add: InverseGamma_def arg_def del: arith_simps)
  then show ?thesis using ab by blast
qed

lemma Logistic_support:
  "valid_params Logistic ps \<Longrightarrow> \<exists>m s. ps = [Fin m, Fin s] \<and> - 5 \<le> m \<and> m \<le> 5 \<and> 0.1 \<le> s \<and> s \<le> 5
      \<and> support Logistic ps = (Fin (m - 7 * s), Fin (m + 7 * s))"
  by (auto simp: vp Logistic_def)

lemma Binomial_support:
  "valid_params Binomial ps \<Longrightarrow> \<exists>n p. ps = [Fin n, Fin p] \<and> 1 \<le> n \<and> n \<le> 50 \<and> 0.01 \<le> p \<and> p \<le> 0.99
      \<and> support Binomial ps = (Fin (- 0.5), Fin (n + 0.5))"
  by (auto simp: vp Binomial_def)

lemma sqrt_le_1000: "0 \<le> x \<Longrightarrow> x \<le> 10 ^ 6 \<Longrightarrow> sqrt x \<le> 1000"
  by (intro real_le_lsqrt) auto

lemmas arith_simps = plus_jsnum.simps minus_jsnum.simps times_jsnum.simps divide_jsnum.simps
  Math_sqrt.simps Math_ceil.simps Math_floor.simps Math_exp.simps Math_log.simps

lemma Poisson_support:
  assumes "valid_params Poisson ps"
  shows "\<exists>m. ps = [Fin m] \<and> 0.5 \<le> m \<and> m \<le> 30
      \<and> support Poisson ps = (Fin (- 0.5), Fin (max 20 (m + 5 * sqrt m) + 0.5))
      \<and> 0 \<le> sqrt m \<and> sqrt m \<le> 1000"
proof -
  obtain m where m: "ps = [Fin m]" "0.5 \<le> m" "m \<le> 30"
    using assms by (auto simp: vp Poisson_def)
  have s: "0 \<le> sqrt m" "sqrt m \<le> 1000" using m by (auto intro: sqrt_le_1000)
  have "Fin 5 * Math_sqrt (Fin m) = Fin (5 * sqrt m)" using m s by simp
  moreover have "Fin m + Fin (5 * sqrt m) = Fin (m + 5 * sqrt m)" using m s by simp
  moreover have "Math_max (Fin 20) (Fin (m + 5 * sqrt m)) = Fin (max 20 (m + 5 * sqrt m))"
    by (simp add: Math_max_def max_def)
  moreover have "Fin (max 20 (m + 5 * sqrt m)) + Fin 0.5 = Fin (max 20 (m + 5 * sqrt m) + 0.5)"
    using m s by (simp add: max_def)
  ultimately have "Math_max (Fin 20) (Fin m + Fin 5 * Math_sqrt (Fin m)) + Fin 0.5
      = Fin (max 20 (m + 5 * sqrt m) + 0.5)"
    by (simp only:)
  then have "support Poisson ps = (Fin (- 0.5), Fin (max 20 (m + 5 * sqrt m) + 0.5))"
    using m(1) by (simp add: Poisson_def arg_def del: arith_simps)
  then show ?thesis using m s by blast
qed

lemma NegativeBinomial_support:
  assumes "valid_params NegativeBinomial ps"
  shows "\<exists>n p h. ps = [Fin n, Fin p] \<and> 1 \<le> n \<and> n \<le> 30 \<and> 0.01 \<le> p \<and> p \<le> 0.99
      \<and> support NegativeBinomial ps = (Fin (- 0.5), Fin h) \<and> 0 \<le> h \<and> h \<le> 10 ^ 4"
proof -
  obtain n p where np: "ps = [Fin n, Fin p]" "1 \<le> n" "n \<le> 30" "0.01 \<le> p" "p \<le> 0.99"
    using assms by (auto simp: vp NegativeBinomial_def)
  define A where "A = n * (1 - p)"
  have A: "0 \<le> A" "A \<le> 30"
    using np mult_mono [of n 30 "1 - p" 1] unfolding A_def by auto
  have 1: "Fin n * (Fin 1 - Fin p) = Fin A" using np A unfolding A_def by simp
  define B where "B = A / p"
  have B: "0 \<le> B" "B \<le> 3000"
    using abs_div_le [of A 30 "0.01" p] A np unfolding B_def by auto
  have 2: "Fin A / Fin p = Fin B" using np B unfolding B_def by simp
  define C where "C = A / (p * p)"
  have pp: "0.0001 \<le> p * p" using mult_mono [of "0.01" p "0.01" p] np by simp
  have C: "0 \<le> C" "C \<le> 300000"
    using abs_div_le [of A 30 "0.0001" "p * p"] A np pp unfolding C_def by auto
  have pp1: "p * p \<le> 1" using mult_mono [of p 1 p 1] np by simp
  have 3: "Fin p * Fin p = Fin (p * p)" using pp pp1 by simp
  have 7: "Fin A / Fin (p * p) = Fin C" using C np unfolding C_def by simp
  define sC where "sC = sqrt C"
  have S: "0 \<le> sC" "sC \<le> 1000" using C unfolding sC_def by (auto intro: sqrt_le_1000)
  have 4: "Fin 4 * Math_sqrt (Fin C) = Fin (4 * sC)" using C S unfolding sC_def by simp
  have 5: "Fin B + Fin (4 * sC) = Fin (B + 4 * sC)" using B S by simp
  define ce where "ce = real_of_int \<lceil>B + 4 * sC\<rceil>"
  define h where "h = ce + 0.5"
  have "0 \<le> B + 4 * sC" "B + 4 * sC \<le> 7000" using B S by auto
  then have c: "0 \<le> ce" "ce \<le> 7001" unfolding ce_def by linarith+
  then have h: "0 \<le> h" "h \<le> 10 ^ 4" unfolding h_def by auto
  have "Math_ceil (Fin (B + 4 * sC)) = Fin ce" unfolding ce_def by simp
  moreover have "Fin ce + Fin 0.5 = Fin h" using c unfolding h_def by simp
  ultimately have 6: "Math_ceil (Fin (B + 4 * sC)) + Fin 0.5 = Fin h" by (simp only:)
  have "Math_ceil (Fin n * (Fin 1 - Fin p) / Fin p
          + Fin 4 * Math_sqrt (Fin n * (Fin 1 - Fin p) / (Fin p * Fin p))) + Fin 0.5 = Fin h"
    by (simp only: 1 2 3 7 4 5 6)
  then have "support NegativeBinomial ps = (Fin (- 0.5), Fin h)"
    using np(1) by (simp add: NegativeBinomial_def arg_def del: arith_simps)
  then show ?thesis using np h by blast
qed

lemma Geometric_support:
  "valid_params Geometric ps \<Longrightarrow> \<exists>p. ps = [Fin p] \<and> 0.01 \<le> p \<and> p \<le> 0.99
      \<and> support Geometric ps = (Fin 0.5, Fin 20.5)"
  by (auto simp: vp Geometric_def)

lemma DiscreteUniform_support:
  "valid_params DiscreteUniform ps \<Longrightarrow> \<exists>l u. ps = [Fin l, Fin u] \<and> - 20 \<le> l \<and> l \<le> 0 \<and> 1 \<le> u \<and> u \<le> 20
      \<and> support DiscreteUniform ps = (Fin (l - 0.5), Fin (u + 0.5))"
  by (auto simp: vp DiscreteUniform_def)

lemma Bernoulli_support:
  "valid_params Bernoulli ps \<Longrightarrow> \<exists>p. ps = [Fin p] \<and> 0.01 \<le> p \<and> p \<le> 0.99
      \<and> support Bernoulli ps = (Fin (- 0.5), Fin 1.5)"
  by (auto simp: vp Bernoulli_def)


section \<open>The number of points\<close>

lemma registry_discrete_window:
  assumes "d \<in> set DISTRIBUTIONS" "kind d = Discrete" "valid_params d ps"
  shows "\<exists>l h. support d ps = (Fin l, Fin h) \<and> \<bar>l\<bar> \<le> 100 \<and> \<bar>h\<bar> \<le> 10 ^ 6"
  using discrete_names [OF assms(1,2)]
proof (elim disjE)
  assume "d = Binomial" then show ?thesis
    using Binomial_support [of ps] assms(3) by auto
next
  assume d: "d = Poisson"
  then obtain m where m: "0.5 \<le> m" "m \<le> 30" "0 \<le> sqrt m" "sqrt m \<le> 1000"
      "support d ps = (Fin (- 0.5), Fin (max 20 (m + 5 * sqrt m) + 0.5))"
    using Poisson_support [of ps] assms(3) by blast
  have "\<bar>max 20 (m + 5 * sqrt m) + 0.5\<bar> \<le> 10 ^ 6" using m(1-4) by (auto simp: max_def)
  then show ?thesis unfolding m(5) by simp
next
  assume "d = NegativeBinomial" then show ?thesis
    using NegativeBinomial_support [of ps] assms(3) by auto
next
  assume "d = Geometric"
  then have s: "support d ps = (Fin 0.5, Fin 20.5)"
    using Geometric_support [of ps] assms(3) by auto
  show ?thesis unfolding s by (intro exI [of _ "0.5"] exI [of _ "20.5"]) simp
next
  assume "d = DiscreteUniform" then show ?thesis
    using DiscreteUniform_support [of ps] assms(3) by auto
next
  assume "d = Bernoulli"
  then have s: "support d ps = (Fin (- 0.5), Fin 1.5)"
    using Bernoulli_support [of ps] assms(3) by auto
  show ?thesis unfolding s by (intro exI [of _ "- 0.5"] exI [of _ "1.5"]) simp
qed

text \<open>
  Claim C3.  \<open>computePoints\<close> returns exactly \<open>numPoints + 1\<close> points for a continuous
  family.  For a discrete family it returns, and the number of points is the number
  of integers \<open>k\<close> with \<open>ceil(lo + 0.5) \<le> k \<le> floor(hi - 0.5)\<close>, where
  \<open>(lo, hi) = support(params)\<close>.  The loop counters are taken below \<open>2\<^sup>5\<^sup>3\<close> in
  magnitude, where adding \<open>1\<close> to a number is exact: \<open>numPoints < 2\<^sup>5\<^sup>3\<close>, and a
  discrete window with \<open>ceil(lo + 0.5)\<close> not at or below \<open>-2\<^sup>5\<^sup>3\<close> and
  \<open>floor(hi - 0.5)\<close> not at or above \<open>2\<^sup>5\<^sup>3\<close> (a bound may be \<open>NaN\<close>; then there is
  no point).  Every discrete family of the registry with a valid parameter vector
  has such a window.  (With an infinite bound there is no number of integers, and
  the loop does not end.)
\<close>

theorem computePoints_length:
  assumes "support d ps = (lo, hi)"
  shows "(kind d = Continuous \<longrightarrow> numPoints < 2 ^ 53 \<longrightarrow>
            (\<exists>pts. computePoints d ps numPoints = Some pts \<and> length pts = numPoints + 1))
       \<and> (kind d = Discrete \<longrightarrow>
            (\<not> Math_ceil (lo + Fin 0.5) \<le> Fin (- (2 ^ 53))
               \<and> \<not> Fin (2 ^ 53) \<le> Math_floor (hi - Fin 0.5))
              \<or> (d \<in> set DISTRIBUTIONS \<and> valid_params d ps) \<longrightarrow>
            (\<exists>pts. computePoints d ps numPoints = Some pts
               \<and> length pts = card {k::int. Math_ceil (lo + Fin 0.5) \<le> Fin (of_int k)
                                         \<and> Fin (of_int k) \<le> Math_floor (hi - Fin 0.5)}))"
proof (intro conjI impI)
  assume "kind d = Continuous"
  then show "\<exists>pts. computePoints d ps numPoints = Some pts \<and> length pts = numPoints + 1"
    using assms by (simp add: computePoints_def continuous_loop_length)
next
  assume k: "kind d = Discrete"
    and f: "(\<not> Math_ceil (lo + Fin 0.5) \<le> Fin (- (2 ^ 53))
               \<and> \<not> Fin (2 ^ 53) \<le> Math_floor (hi - Fin 0.5))
              \<or> (d \<in> set DISTRIBUTIONS \<and> valid_params d ps)"
  have b: "Math_ceil (lo + Fin 0.5) \<noteq> NInf \<and> Math_floor (hi - Fin 0.5) \<noteq> PInf"
    using f
  proof
    assume "\<not> Math_ceil (lo + Fin 0.5) \<le> Fin (- (2 ^ 53))
               \<and> \<not> Fin (2 ^ 53) \<le> Math_floor (hi - Fin 0.5)"
    then show ?thesis by auto
  next
    assume "d \<in> set DISTRIBUTIONS \<and> valid_params d ps"
    then obtain l h where "lo = Fin l" "hi = Fin h" "\<bar>l\<bar> \<le> 100" "\<bar>h\<bar> \<le> 10 ^ 6"
      using registry_discrete_window [of d ps] k assms by auto
    then show ?thesis by simp
  qed
  from discrete_window [OF refl refl, of lo hi "\<lambda>k. pdf d k ps"] b
  show "\<exists>pts. computePoints d ps numPoints = Some pts
               \<and> length pts = card {k::int. Math_ceil (lo + Fin 0.5) \<le> Fin (of_int k)
                                         \<and> Fin (of_int k) \<le> Math_floor (hi - Fin 0.5)}"
    using assms k by (auto simp: computePoints_def Let_def)
qed

theorem computePoints_length_witness:
  "support Bernoulli [Fin 0.5] = (Fin (- 0.5), Fin 1.5) \<and> kind Bernoulli = Discrete
     \<and> (\<exists>pts. computePoints Bernoulli [Fin 0.5] 300 = Some pts \<and> length pts = 2)
   \<and> support Normal [Fin 0, Fin 1] = (Fin (- 4), Fin 4) \<and> kind Normal = Continuous
     \<and> (\<exists>pts. computePoints Normal [Fin 0, Fin 1] 300 = Some pts \<and> length pts = 301)"
proof -
  have s: "support Bernoulli [Fin 0.5] = (Fin (- 0.5), Fin 1.5)" "kind Bernoulli = Discrete"
    by (simp_all add: Bernoulli_def)
  have n: "support Normal [Fin 0, Fin 1] = (Fin (- 4), Fin 4)" "kind Normal = Continuous"
    by (simp_all add: Normal_def arg_def)
  have c: "{k::int. Fin 0 \<le> Fin (of_int k) \<and> Fin (of_int k) \<le> Fin 1} = {0..1}"
    by auto
  show ?thesis
    using computePoints_length [OF s(1), of 300] computePoints_length [OF n(1), of 300] s n c
    by simp
qed

section \<open>The order of the window bounds\<close>

lemma registry_cases:
  "d \<in> set DISTRIBUTIONS \<Longrightarrow>
     d = Normal \<or> d = Beta \<or> d = Gamma \<or> d = HalfNormal \<or> d = Exponential \<or> d = Uniform
     \<or> d = StudentT \<or> d = LogNormal \<or> d = Cauchy_dist \<or> d = Laplace \<or> d = Weibull \<or> d = Triangular
     \<or> d = SkewNormal \<or> d = InverseGamma \<or> d = Logistic
     \<or> d = Binomial \<or> d = Poisson \<or> d = NegativeBinomial \<or> d = Geometric
     \<or> d = DiscreteUniform \<or> d = Bernoulli"
  by (simp add: DISTRIBUTIONS_def)

lemma registry_names:
  "name Normal = ''Normal''" "name Beta = ''Beta''" "name Gamma = ''Gamma''"
  "name HalfNormal = ''HalfNormal''" "name Exponential = ''Exponential''"
  "name Uniform = ''Uniform''" "name StudentT = ''StudentT''" "name LogNormal = ''LogNormal''"
  "name Cauchy_dist = ''Cauchy''" "name Laplace = ''Laplace''" "name Weibull = ''Weibull''"
  "name Triangular = ''Triangular''" "name SkewNormal = ''SkewNormal''"
  "name InverseGamma = ''InverseGamma''" "name Logistic = ''Logistic''"
  "name Binomial = ''Binomial''" "name Poisson = ''Poisson''"
  "name NegativeBinomial = ''NegativeBinomial''" "name Geometric = ''Geometric''"
  "name DiscreteUniform = ''DiscreteUniform''" "name Bernoulli = ''Bernoulli''"
  by (simp_all add: Normal_def Beta_def Gamma_def HalfNormal_def Exponential_def
      Uniform_def StudentT_def LogNormal_def Cauchy_dist_def Laplace_def Weibull_def Triangular_def
      SkewNormal_def InverseGamma_def Logistic_def Binomial_def Poisson_def
      NegativeBinomial_def Geometric_def DiscreteUniform_def Bernoulli_def)

lemma rnd_pos: "0 < r \<Longrightarrow> Fin 0 < rnd r"
  using MAXR_pos by (auto simp: rnd_def)

lemma rnd_neg: "r < 0 \<Longrightarrow> rnd r < Fin 0"
  using MAXR_pos by (auto simp: rnd_def)

lemma pos_times_8: "Fin 0 < v \<Longrightarrow> Fin 0 \<le> v * Fin 8"
  using rnd_pos [of "r * 8" for r] by (cases v) (auto simp: rnd_def MAXR_pos less_imp_le)

lemma InverseGamma_window:
  assumes "0 < b"
  shows "(Fin 0 \<le> Fin b / Fin (a - 1) * Fin 8) = (1 \<le> a)"
proof -
  consider "a = 1" | "1 < a" | "a < 1" by linarith
  then show ?thesis
  proof cases
    case 1
    then show ?thesis using assms by simp
  next
    case 2
    then have "0 < b / (a - 1)" using assms by simp
    then have "Fin 0 < rnd (b / (a - 1))" by (rule rnd_pos)
    then have "Fin 0 \<le> rnd (b / (a - 1)) * Fin 8" by (rule pos_times_8)
    then show ?thesis using 2 by simp
  next
    case 3
    then have n: "b / (a - 1) < 0" using assms by (simp add: divide_neg_pos divide_pos_neg)
    have "\<not> Fin 0 \<le> rnd (b / (a - 1)) * Fin 8"
    proof (cases "rnd (b / (a - 1))")
      case (Fin q)
      then have "q < 0" using n by (auto simp: rnd_def split: if_splits)
      then have "rnd (q * 8) < Fin 0" by (intro rnd_neg) simp
      then show ?thesis using Fin by (cases "rnd (q * 8)") auto
    next
      case PInf
      then show ?thesis using rnd_neg [OF n] by simp
    qed (use rnd_neg [OF n] in auto)
    then show ?thesis using 3 by simp
  qed
qed

text \<open>
  Claim C2, as amended.  For every family of the registry and every valid parameter
  vector, \<open>support\<close> returns \<open>lo \<le> hi\<close>, provided that \<open>lower \<le> upper + 1\<close> for Uniform,
  \<open>lower \<le> upper + 0.4\<close> for Triangular and \<open>alpha \<ge> 1\<close> for InverseGamma.  The declared
  ranges admit vectors outside these conditions (\<open>lower\<close> and \<open>upper\<close> have overlapping
  ranges, and \<open>alpha\<close> starts at \<open>0.5\<close>), for which the window can be inverted.
\<close>

theorem support_ordered:
  assumes "d \<in> set DISTRIBUTIONS" "valid_params d ps"
    and "name d = ''Uniform'' \<longrightarrow> arg ps 0 \<le> arg ps 1 + Fin 1"
    and "name d = ''Triangular'' \<longrightarrow> arg ps 0 \<le> arg ps 2 + Fin 0.4"
    and "name d = ''InverseGamma'' \<longrightarrow> Fin 1 \<le> arg ps 0"
  shows "fst (support d ps) \<le> snd (support d ps)"
  using registry_cases [OF assms(1)]
proof (elim disjE)
  assume "d = Normal" then show ?thesis
    using Normal_support [of ps] assms(2) by auto
next
  assume "d = Beta" then show ?thesis
    using Beta_support [of ps] assms(2) by auto
next
  assume "d = Gamma" then show ?thesis
    using Gamma_support [of ps] assms(2) by auto
next
  assume "d = HalfNormal" then show ?thesis
    using HalfNormal_support [of ps] assms(2) by auto
next
  assume "d = Exponential" then show ?thesis
    using Exponential_support [of ps] assms(2) by auto
next
  assume "d = Uniform" then show ?thesis
    using Uniform_support [of ps] assms(2,3) by (auto simp: registry_names arg_def)
next
  assume "d = StudentT" then show ?thesis
    using StudentT_support [of ps] assms(2) by auto
next
  assume "d = LogNormal" then show ?thesis
    using LogNormal_support [of ps] assms(2) by auto
next
  assume "d = Cauchy_dist" then show ?thesis
    using Cauchy_support [of ps] assms(2) by auto
next
  assume "d = Laplace" then show ?thesis
    using Laplace_support [of ps] assms(2) by auto
next
  assume "d = Weibull" then show ?thesis
    using Weibull_support [of ps] assms(2) by auto
next
  assume "d = Triangular" then show ?thesis
    using Triangular_support [of ps] assms(2,4) by (auto simp: registry_names arg_def)
next
  assume "d = SkewNormal" then show ?thesis
    using SkewNormal_support [of ps] assms(2) by auto
next
  assume d: "d = InverseGamma"
  then obtain a b where ab: "ps = [Fin a, Fin b]" "0.1 \<le> b"
     "support d ps = (Fin 0, Fin b / Fin (a - 1) * Fin 8)"
    using InverseGamma_support [of ps] assms(2) by auto
  have "1 \<le> a" using assms(5) d ab(1) by (simp add: registry_names arg_def)
  moreover have "0 < b" using ab(2) by simp
  ultimately show ?thesis using InverseGamma_window [of b a] ab(3) by simp
next
  assume "d = Logistic" then show ?thesis
    using Logistic_support [of ps] assms(2) by auto
next
  assume "d = Binomial" then show ?thesis
    using Binomial_support [of ps] assms(2) by auto
next
  assume "d = Poisson" then show ?thesis
    using Poisson_support [of ps] assms(2) by auto
next
  assume "d = NegativeBinomial" then show ?thesis
    using NegativeBinomial_support [of ps] assms(2) by auto
next
  assume "d = Geometric" then show ?thesis
    using Geometric_support [of ps] assms(2) by auto
next
  assume "d = DiscreteUniform" then show ?thesis
    using DiscreteUniform_support [of ps] assms(2) by auto
next
  assume "d = Bernoulli" then show ?thesis
    using Bernoulli_support [of ps] assms(2) by auto
qed

theorem support_ordered_witness:
  "Uniform \<in> set DISTRIBUTIONS \<and> valid_params Uniform [Fin 0, Fin 1]
     \<and> arg [Fin 0, Fin 1] 0 \<le> arg [Fin 0, Fin 1] 1 + Fin 1
     \<and> fst (support Uniform [Fin 0, Fin 1]) \<le> snd (support Uniform [Fin 0, Fin 1])"
proof -
  have 1: "Uniform \<in> set DISTRIBUTIONS" by (simp add: DISTRIBUTIONS_def)
  have 2: "valid_params Uniform [Fin 0, Fin 1]"
    by (simp add: valid_params_def in_range_def mkParam_def Uniform_def)
  have 3: "arg [Fin 0, Fin 1] 0 \<le> arg [Fin 0, Fin 1] 1 + Fin 1" by (simp add: arg_def)
  show ?thesis using support_ordered [OF 1 2] 1 2 3 by (simp add: registry_names)
qed

theorem support_inverted:
  "Uniform \<in> set DISTRIBUTIONS \<and> valid_params Uniform [Fin 9, Fin (- 9)]
     \<and> support Uniform [Fin 9, Fin (- 9)] = (Fin 8.5, Fin (- 8.5))
     \<and> \<not> fst (support Uniform [Fin 9, Fin (- 9)]) \<le> snd (support Uniform [Fin 9, Fin (- 9)])
   \<and> Triangular \<in> set DISTRIBUTIONS \<and> valid_params Triangular [Fin 5, Fin 0, Fin (- 5)]
     \<and> support Triangular [Fin 5, Fin 0, Fin (- 5)] = (Fin 4.8, Fin (- 4.8))
   \<and> InverseGamma \<in> set DISTRIBUTIONS \<and> valid_params InverseGamma [Fin 0.5, Fin 1]
     \<and> support InverseGamma [Fin 0.5, Fin 1] = (Fin 0, Fin (- 16))"
proof -
  have 1: "Uniform \<in> set DISTRIBUTIONS" "Triangular \<in> set DISTRIBUTIONS"
      "InverseGamma \<in> set DISTRIBUTIONS"
    by (simp_all add: DISTRIBUTIONS_def)
  have 2: "valid_params Uniform [Fin 9, Fin (- 9)]"
    by (simp add: valid_params_def in_range_def mkParam_def Uniform_def)
  have 3: "support Uniform [Fin 9, Fin (- 9)] = (Fin 8.5, Fin (- 8.5))"
    by (simp add: Uniform_def arg_def)
  have 4: "valid_params Triangular [Fin 5, Fin 0, Fin (- 5)]"
    by (simp add: valid_params_def in_range_def mkParam_def Triangular_def)
  have 5: "support Triangular [Fin 5, Fin 0, Fin (- 5)] = (Fin 4.8, Fin (- 4.8))"
    by (simp add: Triangular_def arg_def)
  have 6: "valid_params InverseGamma [Fin 0.5, Fin 1]"
    by (simp add: valid_params_def in_range_def mkParam_def InverseGamma_def)
  have 7: "support InverseGamma [Fin 0.5, Fin 1] = (Fin 0, Fin (- 16))"
    by (simp add: InverseGamma_def arg_def)
  show ?thesis using 1 2 3 4 5 6 7 by simp
qed

section \<open>The order of the sample points\<close>

lemma continuous_loop_xs:
  "map pt_x (continuous_loop f lo step n i pts)
     = map pt_x pts @ map (\<lambda>j. toFixed6 (lo + Fin (real j) * step)) [i..<Suc n]"
proof (induction f lo step n i pts rule: continuous_loop.induct)
  case (1 f lo step numPoints i points)
  show ?case
  proof (cases "i \<le> numPoints")
    case True
    then have "[i..<Suc numPoints] = i # [Suc i..<Suc numPoints]"
      by (simp add: upt_conv_Cons)
    then show ?thesis
      using "1.IH" [OF True refl refl] True
      by (subst continuous_loop.simps) (simp add: Let_def)
  next
    case False
    then show ?thesis by (subst continuous_loop.simps) simp
  qed
qed

lemma half_floor_nonneg: "0 \<le> (y::real) \<Longrightarrow> 0 \<le> real_of_int \<lfloor>y + 1 / 2\<rfloor>"
  by simp

lemma half_floor_le:
  fixes y :: real
  assumes "y < 10 ^ 27"
  shows "real_of_int \<lfloor>y + 1 / 2\<rfloor> \<le> 10 ^ 27"
proof -
  note assms
  then have "y + 1 / 2 < real_of_int (10 ^ 27) + 1" by simp
  then have "\<lfloor>y + 1 / 2\<rfloor> \<le> 10 ^ 27" by (simp only: floor_le_iff)
  then have "real_of_int \<lfloor>y + 1 / 2\<rfloor> \<le> real_of_int (10 ^ 27)" by (simp only: of_int_le_iff)
  then show ?thesis by simp
qed

lemma toFixed6_cases:
  obtains (big) "10 ^ 21 \<le> \<bar>a\<bar>" "toFixed6 (Fin a) = Fin a"
  | (neg) q where "\<bar>a\<bar> < 10 ^ 21" "a < 0" "toFixed6 (Fin a) = Fin q" "- (10 ^ 21) \<le> q" "q \<le> 0"
       "q = - (real_of_int \<lfloor>- a * 10 ^ 6 + 1 / 2\<rfloor> / 10 ^ 6)"
  | (pos) q where "\<bar>a\<bar> < 10 ^ 21" "0 \<le> a" "toFixed6 (Fin a) = Fin q" "0 \<le> q" "q \<le> 10 ^ 21"
       "q = real_of_int \<lfloor>a * 10 ^ 6 + 1 / 2\<rfloor> / 10 ^ 6"
proof -
  consider "10 ^ 21 \<le> \<bar>a\<bar>" | "\<bar>a\<bar> < 10 ^ 21" "a < 0" | "\<bar>a\<bar> < 10 ^ 21" "0 \<le> a" by linarith
  then show ?thesis
  proof cases
    case 1
    then show ?thesis by (intro big) auto
  next
    case 2
    define y where "y = - a * 10 ^ 6"
    have y: "0 \<le> y" "y < 10 ^ 27" using 2 unfolding y_def by auto
    define q where "q = - (real_of_int \<lfloor>y + 1 / 2\<rfloor> / 10 ^ 6)"
    have "0 \<le> real_of_int \<lfloor>y + 1 / 2\<rfloor>" "real_of_int \<lfloor>y + 1 / 2\<rfloor> \<le> 10 ^ 27"
      using half_floor_nonneg [OF y(1)] half_floor_le [OF y(2)] by auto
    then have "- (10 ^ 21) \<le> q" "q \<le> 0" unfolding q_def by (auto simp: field_simps)
    moreover have "toFixed6 (Fin a) = Fin q" using 2 unfolding q_def y_def by simp
    ultimately show ?thesis using 2 by (intro neg [of q]) (auto simp: q_def y_def)
  next
    case 3
    define y where "y = a * 10 ^ 6"
    have y: "0 \<le> y" "y < 10 ^ 27" using 3 unfolding y_def by auto
    define q where "q = real_of_int \<lfloor>y + 1 / 2\<rfloor> / 10 ^ 6"
    have "0 \<le> real_of_int \<lfloor>y + 1 / 2\<rfloor>" "real_of_int \<lfloor>y + 1 / 2\<rfloor> \<le> 10 ^ 27"
      using half_floor_nonneg [OF y(1)] half_floor_le [OF y(2)] by auto
    then have "0 \<le> q" "q \<le> 10 ^ 21" unfolding q_def by (auto simp: field_simps)
    moreover have "toFixed6 (Fin a) = Fin q" using 3 unfolding q_def y_def by simp
    ultimately show ?thesis using 3 by (intro pos [of q]) (auto simp: q_def y_def)
  qed
qed

lemma toFixed6_mono:
  assumes "a \<le> b"
  shows "toFixed6 (Fin a) \<le> toFixed6 (Fin b)"
proof (cases a rule: toFixed6_cases)
  case big
  note A = big
  show ?thesis
  proof (cases b rule: toFixed6_cases)
    case big
    show ?thesis unfolding A(2) big(2) using assms by simp
  next
    case (neg q)
    show ?thesis unfolding A(2) neg(3) using A(1) neg(1,2,4,5) assms by simp
  next
    case (pos q)
    show ?thesis unfolding A(2) pos(3) using A(1) pos(1,2,4,5) assms by simp
  qed
next
  case (neg q)
  note A = neg
  show ?thesis
  proof (cases b rule: toFixed6_cases)
    case big
    show ?thesis unfolding A(3) big(2) using A(1,2,4,5) big(1) assms by simp
  next
    case (neg q')
    have "\<lfloor>- b * 10 ^ 6 + 1 / 2\<rfloor> \<le> \<lfloor>- a * 10 ^ 6 + 1 / 2\<rfloor>"
      using assms by (intro floor_mono) simp
    then have "real_of_int \<lfloor>- b * 10 ^ 6 + 1 / 2\<rfloor> \<le> real_of_int \<lfloor>- a * 10 ^ 6 + 1 / 2\<rfloor>"
      by (simp only: of_int_le_iff)
    then have "q \<le> q'" unfolding A(6) neg(6) by (simp add: divide_right_mono)
    then show ?thesis unfolding A(3) neg(3) by simp
  next
    case (pos q')
    show ?thesis unfolding A(3) pos(3) using A(5) pos(4) by simp
  qed
next
  case (pos q)
  note A = pos
  show ?thesis
  proof (cases b rule: toFixed6_cases)
    case big
    show ?thesis unfolding A(3) big(2) using A(1,2,4,5) big(1) assms by simp
  next
    case (neg q')
    show ?thesis using A(2) neg(2) assms by simp
  next
    case (pos q')
    have "\<lfloor>a * 10 ^ 6 + 1 / 2\<rfloor> \<le> \<lfloor>b * 10 ^ 6 + 1 / 2\<rfloor>"
      using assms by (intro floor_mono) simp
    then have "real_of_int \<lfloor>a * 10 ^ 6 + 1 / 2\<rfloor> \<le> real_of_int \<lfloor>b * 10 ^ 6 + 1 / 2\<rfloor>"
      by (simp only: of_int_le_iff)
    then have "q \<le> q'" unfolding A(6) pos(6) by (simp add: divide_right_mono)
    then show ?thesis unfolding A(3) pos(3) by simp
  qed
qed

lemma continuous_xs_Fin:
  assumes "l \<le> h" "- MAXR < l" "h < MAXR" "h - l < MAXR" "0 < n" "j \<le> n"
  shows "Fin l + Fin (real j) * ((Fin h - Fin l) / Fin (real n))
           = Fin (l + real j * ((h - l) / real n))"
proof -
  define s where "s = (h - l) / real n"
  have d: "Fin h - Fin l = Fin (h - l)" using assms by (simp add: rnd_fin)
  have "(h - l) / real n \<le> (h - l) / 1" using assms by (intro divide_left_mono) auto
  then have s: "0 \<le> s" "s \<le> h - l" using assms unfolding s_def by auto
  have 1: "Fin (h - l) / Fin (real n) = Fin s"
    using assms s unfolding s_def [symmetric] by (simp add: rnd_fin s_def [symmetric])
  have js: "0 \<le> real j * s" "real j * s \<le> h - l"
  proof -
    show "0 \<le> real j * s" using s by simp
    have "real j * s \<le> real n * s" using assms s by (intro mult_right_mono) auto
    also have "\<dots> = h - l" using assms unfolding s_def by simp
    finally show "real j * s \<le> h - l" .
  qed
  have 2: "Fin (real j) * Fin s = Fin (real j * s)" using js assms by (simp add: rnd_fin)
  have 3: "Fin l + Fin (real j * s) = Fin (l + real j * s)" using js assms by (simp add: rnd_fin)
  show ?thesis unfolding d 1 2 3 s_def [symmetric] ..
qed

lemma continuous_sorted:
  assumes "l \<le> h" "- MAXR < l" "h < MAXR" "h - l < MAXR"
  shows "sorted_wrt (\<le>) (map pt_x (continuous_loop f (Fin l) ((Fin h - Fin l) / Fin (real n)) n 0 []))"
proof (cases "n = 0")
  case True
  then show ?thesis by (simp add: continuous_loop_xs)
next
  case False
  define s where "s = (h - l) / real n"
  have s: "0 \<le> s" using assms False unfolding s_def by simp
  have eq: "map (\<lambda>j. toFixed6 (Fin l + Fin (real j) * ((Fin h - Fin l) / Fin (real n)))) [0..<Suc n]
      = map (\<lambda>j. toFixed6 (Fin (l + real j * s))) [0..<Suc n]"
    using continuous_xs_Fin [OF assms] False unfolding s_def by (intro map_cong) auto
  have "sorted_wrt (\<lambda>i j. toFixed6 (Fin (l + real i * s)) \<le> toFixed6 (Fin (l + real j * s))) [0..<Suc n]"
  proof (rule sorted_wrt_mono_rel [of _ "(<)"])
    fix i j :: nat
    assume "i < j"
    then have "l + real i * s \<le> l + real j * s" using s by (simp add: mult_right_mono)
    then show "toFixed6 (Fin (l + real i * s)) \<le> toFixed6 (Fin (l + real j * s))"
      by (rule toFixed6_mono)
  qed (simp del: upt_Suc)
  moreover have "map pt_x (continuous_loop f (Fin l) ((Fin h - Fin l) / Fin (real n)) n 0 [])
      = map (\<lambda>j. toFixed6 (Fin (l + real j * s))) [0..<Suc n]"
    by (simp only: continuous_loop_xs eq list.map append_Nil)
  ultimately show ?thesis by (simp only: sorted_wrt_map)
qed


lemma times_Fin_range: "a * b = Fin r \<Longrightarrow> - MAXR < r \<and> r < MAXR"
  by (cases a; cases b) (auto simp: rnd_def split: if_splits)

lemma less_imp_le_jsnum: "(a::jsnum) < b \<Longrightarrow> a \<le> b"
  by (cases a; cases b) auto

lemma discrete_sorted:
  assumes "Math_ceil (lo + Fin 0.5) \<noteq> NInf" "Math_floor (hi - Fin 0.5) \<noteq> PInf"
  shows "\<exists>pts. discrete_loop f (Math_ceil (lo + Fin 0.5)) (Math_floor (hi - Fin 0.5)) [] = Some pts
           \<and> sorted_wrt (<) (map pt_x pts)"
proof -
  obtain pts where pts: "discrete_loop f (Math_ceil (lo + Fin 0.5)) (Math_floor (hi - Fin 0.5)) [] = Some pts"
    "map pt_x pts = map (\<lambda>k. Fin (of_int k)) (sorted_list_of_set {k::int. Math_ceil (lo + Fin 0.5) \<le> Fin (of_int k) \<and> Fin (of_int k) \<le> Math_floor (hi - Fin 0.5)})"
    using discrete_window [OF refl refl assms, of f] by blast
  have "sorted_wrt (\<lambda>a b. Fin (real_of_int a) < Fin (real_of_int b)) (sorted_list_of_set S)" for S :: "int set"
    using strict_sorted_list_of_set [of S] by simp
  then have "sorted_wrt (<) (map pt_x pts)" unfolding pts(2) by (simp only: sorted_wrt_map)
  with pts(1) show ?thesis by blast
qed

lemma registry_window:
  assumes "d \<in> set DISTRIBUTIONS" "valid_params d ps"
  shows "\<exists>l. fst (support d ps) = Fin l \<and> \<bar>l\<bar> \<le> 100
           \<and> (\<forall>h. snd (support d ps) = Fin h \<longrightarrow> (l = 0 \<and> h < MAXR) \<or> \<bar>h\<bar> \<le> 10 ^ 6)"
  using registry_cases [OF assms(1)]
proof (elim disjE)
  assume "d = Normal" then show ?thesis
    using Normal_support [of ps] assms(2) by auto
next
  assume "d = Beta" then show ?thesis
    using Beta_support [of ps] assms(2) by auto
next
  assume "d = Gamma" then show ?thesis
    using Gamma_support [of ps] assms(2) by auto
next
  assume "d = HalfNormal" then show ?thesis
    using HalfNormal_support [of ps] assms(2) by auto
next
  assume "d = Exponential" then show ?thesis
    using Exponential_support [of ps] assms(2) by auto
next
  assume "d = Uniform" then show ?thesis
    using Uniform_support [of ps] assms(2) by auto
next
  assume "d = StudentT" then show ?thesis
    using StudentT_support [of ps] assms(2) by auto
next
  assume "d = LogNormal" then show ?thesis
    using LogNormal_support [of ps] assms(2) by auto
next
  assume "d = Cauchy_dist" then show ?thesis
    using Cauchy_support [of ps] assms(2) by auto
next
  assume "d = Laplace" then show ?thesis
    using Laplace_support [of ps] assms(2) by auto
next
  assume "d = Weibull" then show ?thesis
    using Weibull_support [of ps] assms(2) by auto
next
  assume "d = Triangular" then show ?thesis
    using Triangular_support [of ps] assms(2) by auto
next
  assume "d = SkewNormal" then show ?thesis
    using SkewNormal_support [of ps] assms(2) by auto
next
  assume d: "d = InverseGamma"
  then obtain a b where ab: "support d ps = (Fin 0, Fin b / Fin (a - 1) * Fin 8)"
    using InverseGamma_support [of ps] assms(2) by auto
  show ?thesis unfolding ab using times_Fin_range [of "Fin b / Fin (a - 1)" "Fin 8"] by auto
next
  assume "d = Logistic" then show ?thesis
    using Logistic_support [of ps] assms(2) by auto
next
  assume "d = Binomial" then show ?thesis
    using Binomial_support [of ps] assms(2) by auto
next
  assume d: "d = Poisson"
  then obtain m where m: "0.5 \<le> m" "m \<le> 30" "0 \<le> sqrt m" "sqrt m \<le> 1000"
      "support d ps = (Fin (- 0.5), Fin (max 20 (m + 5 * sqrt m) + 0.5))"
    using Poisson_support [of ps] assms(2) by blast
  have "\<bar>max 20 (m + 5 * sqrt m) + 0.5\<bar> \<le> 10 ^ 6" using m(1-4) by (auto simp: max_def)
  then show ?thesis unfolding m(5) by simp
next
  assume "d = NegativeBinomial" then show ?thesis
    using NegativeBinomial_support [of ps] assms(2) by auto
next
  assume "d = Geometric"
  then have s: "support d ps = (Fin 0.5, Fin 20.5)"
    using Geometric_support [of ps] assms(2) by auto
  show ?thesis unfolding s by (intro exI [of _ "0.5"]) simp
next
  assume "d = DiscreteUniform" then show ?thesis
    using DiscreteUniform_support [of ps] assms(2) by auto
next
  assume "d = Bernoulli" then show ?thesis
    using Bernoulli_support [of ps] assms(2) by auto
qed

text \<open>
  Claim C6, as amended.  For every family of the registry and every valid parameter
  vector whose window has \<open>lo \<le> hi\<close> and a finite \<open>hi\<close>, \<open>computePoints\<close> returns
  its points in ascending order of \<open>x\<close>: each \<open>x\<close> is at most every later one, and
  for a discrete family strictly less.  (A continuous family can repeat an \<open>x\<close>,
  since \<open>x\<close> is rounded to six decimals; and where \<open>lo > hi\<close> the points descend.)
\<close>

theorem computePoints_ascending:
  assumes "d \<in> set DISTRIBUTIONS" "valid_params d ps"
    and "support d ps = (lo, hi)" "lo \<le> hi" "isFinite hi"
  shows "\<exists>pts. computePoints d ps n = Some pts \<and> sorted_wrt (\<le>) (map pt_x pts)
           \<and> (kind d = Discrete \<longrightarrow> sorted_wrt (<) (map pt_x pts))"
proof -
  obtain l where l: "lo = Fin l" "\<bar>l\<bar> \<le> 100"
      and H: "\<forall>h. hi = Fin h \<longrightarrow> (l = 0 \<and> h < MAXR) \<or> \<bar>h\<bar> \<le> 10 ^ 6"
    using registry_window [OF assms(1,2)] assms(3) by auto
  obtain h where h: "hi = Fin h" using assms(5) by (cases hi) auto
  have lh: "l \<le> h" using assms(4) l h by simp
  have b: "- MAXR < l" "h < MAXR" "h - l < MAXR" "- MAXR < h"
    using H h l(2) lh MAXR_big by auto
  show ?thesis
  proof (cases "kind d")
    case Continuous
    then show ?thesis
      using continuous_sorted [OF lh b(1-3), of "\<lambda>x. pdf d x ps" n] assms(3) l h
      by (simp add: computePoints_def del: minus_jsnum.simps)
  next
    case Discrete
    have 1: "Math_ceil (lo + Fin 0.5) \<noteq> NInf"
      using l b MAXR_big by (auto simp: rnd_def)
    have 2: "Math_floor (hi - Fin 0.5) \<noteq> PInf"
      using h b MAXR_big by (auto simp: rnd_def)
    obtain pts where pts: "discrete_loop (\<lambda>k. pdf d k ps) (Math_ceil (lo + Fin 0.5)) (Math_floor (hi - Fin 0.5)) [] = Some pts"
       "sorted_wrt (<) (map pt_x pts)"
      using discrete_sorted [OF 1 2] by blast
    have "sorted_wrt (\<le>) (map pt_x pts)"
      using pts(2) by (rule sorted_wrt_mono_rel [rotated]) (simp add: less_imp_le_jsnum)
    then show ?thesis using pts Discrete assms(3) by (simp add: computePoints_def Let_def)
  qed
qed


theorem computePoints_ascending_witness:
  "Normal \<in> set DISTRIBUTIONS \<and> valid_params Normal [Fin 0, Fin 1]
     \<and> support Normal [Fin 0, Fin 1] = (Fin (- 4), Fin 4) \<and> Fin (- 4) \<le> Fin 4 \<and> isFinite (Fin 4)
     \<and> (\<exists>pts. computePoints Normal [Fin 0, Fin 1] 300 = Some pts \<and> sorted_wrt (\<le>) (map pt_x pts))
   \<and> Bernoulli \<in> set DISTRIBUTIONS \<and> valid_params Bernoulli [Fin 0.5]
     \<and> support Bernoulli [Fin 0.5] = (Fin (- 0.5), Fin 1.5) \<and> kind Bernoulli = Discrete
     \<and> (\<exists>pts. computePoints Bernoulli [Fin 0.5] 300 = Some pts \<and> sorted_wrt (<) (map pt_x pts))"
proof -
  have 1: "Normal \<in> set DISTRIBUTIONS" "Bernoulli \<in> set DISTRIBUTIONS"
    by (simp_all add: DISTRIBUTIONS_def)
  have 2: "valid_params Normal [Fin 0, Fin 1]"
    by (simp add: valid_params_def in_range_def mkParam_def Normal_def)
  have 3: "support Normal [Fin 0, Fin 1] = (Fin (- 4), Fin 4)"
    by (simp add: Normal_def arg_def)
  have 4: "valid_params Bernoulli [Fin 0.5]"
    by (simp add: valid_params_def in_range_def mkParam_def Bernoulli_def)
  have 5: "support Bernoulli [Fin 0.5] = (Fin (- 0.5), Fin 1.5)" "kind Bernoulli = Discrete"
    by (simp_all add: Bernoulli_def)
  have 6: "Fin (- 4) \<le> Fin 4" "isFinite (Fin 4)" "Fin (- 0.5) \<le> Fin 1.5" "isFinite (Fin 1.5)"
    by simp_all
  show ?thesis
    using computePoints_ascending [OF 1(1) 2 3 6(1,2), of 300]
      computePoints_ascending [OF 1(2) 4 5(1) 6(3,4), of 300] 1 2 3 4 5 6
    by auto
qed

theorem computePoints_not_ascending:
  "Uniform \<in> set DISTRIBUTIONS \<and> valid_params Uniform [Fin 9, Fin (- 9)]
     \<and> map_option (map pt_x) (computePoints Uniform [Fin 9, Fin (- 9)] 2)
         = Some [Fin 8.5, Fin 0, Fin (- 8.5)]
     \<and> \<not> sorted_wrt (<) [Fin 8.5, Fin 0, Fin (- 8.5)]
   \<and> Beta \<in> set DISTRIBUTIONS \<and> valid_params Beta [Fin 2, Fin 5]
     \<and> map_option (take 2 \<circ> map pt_x) (computePoints Beta [Fin 2, Fin 5] 3000000)
         = Some [Fin 0, Fin 0]
     \<and> \<not> sorted_wrt (<) [Fin 0, Fin 0]"
proof -
  have 1: "Uniform \<in> set DISTRIBUTIONS" "Beta \<in> set DISTRIBUTIONS"
    by (simp_all add: DISTRIBUTIONS_def)
  have 2: "valid_params Uniform [Fin 9, Fin (- 9)]"
    by (simp add: valid_params_def in_range_def mkParam_def Uniform_def)
  have 3: "valid_params Beta [Fin 2, Fin 5]"
    by (simp add: valid_params_def in_range_def mkParam_def Beta_def)
  have u: "support Uniform [Fin 9, Fin (- 9)] = (Fin 8.5, Fin (- 8.5))" "kind Uniform = Continuous"
    by (simp_all add: Uniform_def arg_def)
  have 4: "map_option (map pt_x) (computePoints Uniform [Fin 9, Fin (- 9)] 2)
         = Some [Fin 8.5, Fin 0, Fin (- 8.5)]"
    using u by (simp add: computePoints_def continuous_loop_xs numeral_2_eq_2)
  have b: "support Beta [Fin 2, Fin 5] = (Fin 0, Fin 1)" "kind Beta = Continuous"
    by (simp_all add: Beta_def)
  have "take 2 [0..<Suc 3000000] = [0..<0 + 2]" by (rule take_upt) simp
  also have "\<dots> = [0, Suc 0]" by (simp add: upt_conv_Cons)
  finally have "take 2 (map (\<lambda>j. toFixed6 (Fin 0 + Fin (real j) * Fin (1 / 3000000))) [0..<Suc 3000000])
      = [Fin 0, Fin 0]"
    by (simp add: take_map del: upt_Suc)
  then have 5: "map_option (take 2 \<circ> map pt_x) (computePoints Beta [Fin 2, Fin 5] 3000000)
         = Some [Fin 0, Fin 0]"
    using b by (simp add: computePoints_def continuous_loop_xs del: upt_Suc)
  show ?thesis using 1 2 3 4 5 by simp
qed


section \<open>The sign of the density\<close>

lemma nn_Fin: "0 \<le> r \<Longrightarrow> not_negative (Fin r)"
  by (simp add: not_negative_def)

lemma rnd_not_neg: "0 \<le> r \<Longrightarrow> \<not> rnd r < Fin 0"
  using MAXR_pos by (auto simp: rnd_def)

lemma nn_exp: "not_negative (Math_exp v)"
  using rnd_not_neg [of "exp x" for x] by (cases v) (auto simp: not_negative_def)

lemma nn_sqrt: "not_negative (Math_sqrt v)"
  by (cases v) (auto simp: not_negative_def)

lemma nn_times: "not_negative a \<Longrightarrow> not_negative b \<Longrightarrow> not_negative (a * b)"
  using rnd_not_neg [of "x * y" for x y]
  by (cases a; cases b) (auto simp: not_negative_def)

lemma nn_divide: "not_negative a \<Longrightarrow> not_negative b \<Longrightarrow> not_negative (a / b)"
  using rnd_not_neg [of "x / y" for x y]
  by (cases a; cases b) (auto simp: not_negative_def)

lemma nn_plus: "not_negative a \<Longrightarrow> not_negative b \<Longrightarrow> not_negative (a + b)"
  using rnd_not_neg [of "x + y" for x y]
  by (cases a; cases b) (auto simp: not_negative_def)

lemma nn_minus: "\<not> a < b \<Longrightarrow> not_negative (a - b)"
  using rnd_not_neg [of "x - y" for x y]
  by (cases a; cases b) (auto simp: not_negative_def)

lemma nn_square: "not_negative (z * z)"
  using rnd_not_neg [of "x * x" for x]
  by (cases z) (auto simp: not_negative_def)

lemma nn_pow: "not_negative b \<Longrightarrow> not_negative (Math_pow b e)"
  using rnd_not_neg [of "x powr y" for x y]
  by (cases b; cases e) (auto simp: not_negative_def Math_pow_def)

lemma nn_not_le: "\<not> x \<le> Fin 0 \<Longrightarrow> not_negative x"
  by (cases x) (auto simp: not_negative_def)

lemma not_le_not_less: "\<not> a \<le> b \<Longrightarrow> \<not> a < (b::jsnum)"
  by (cases a; cases b) auto

lemma less_trans_jsnum: "a < b \<Longrightarrow> b < c \<Longrightarrow> a < (c::jsnum)"
  by (cases a; cases b; cases c) auto

lemmas nn_intros = nn_exp nn_sqrt nn_square nn_times nn_divide nn_plus nn_pow

lemma nn_normalPDF: "not_negative sigma \<Longrightarrow> not_negative (normalPDF x mu sigma)"
  by (simp add: normalPDF_def Let_def SQRT2PI_def nn_intros)

lemma erf_NaN: "erf NaN = NaN"
  by (simp add: erf_def Let_def)

lemma nn_normalCDF: "not_negative (normalCDF v)"
proof (cases "v = NaN")
  case True
  then show ?thesis by (simp add: normalCDF_def erf_NaN not_negative_def)
next
  case False
  obtain e where e: "erf (v / SQRT2) = Fin e" "- 1 \<le> e" "e \<le> 1"
    using erf_Fin_range [OF div_SQRT2_not_NaN [OF False]] by blast
  then show ?thesis by (simp add: normalCDF_def not_negative_def)
qed


lemma Normal_nn: "valid_params Normal ps \<Longrightarrow> not_negative (pdf Normal x ps)"
  by (auto simp: vp Let_def Normal_def intro!: nn_normalPDF nn_Fin)

lemma Beta_nn: "not_negative (pdf Beta x ps)"
  by (simp add: Beta_def Let_def nn_exp nn_Fin)

lemma Gamma_nn: "not_negative (pdf Gamma x ps)"
  by (simp add: Gamma_def Let_def nn_exp nn_Fin)

lemma InverseGamma_nn: "not_negative (pdf InverseGamma x ps)"
  by (simp add: InverseGamma_def Let_def nn_exp nn_Fin)

lemma Poisson_nn: "not_negative (pdf Poisson x ps)"
  by (simp add: Poisson_def Let_def nn_exp nn_Fin)

lemma NegativeBinomial_nn: "not_negative (pdf NegativeBinomial x ps)"
  by (simp add: NegativeBinomial_def Let_def nn_exp nn_Fin)

lemma HalfNormal_nn: "valid_params HalfNormal ps \<Longrightarrow> not_negative (pdf HalfNormal x ps)"
  by (auto simp: vp Let_def HalfNormal_def SQRT2PI_def simp del: arith_simps intro!: nn_intros nn_Fin)

lemma Exponential_nn: "valid_params Exponential ps \<Longrightarrow> not_negative (pdf Exponential x ps)"
  by (auto simp: vp Let_def Exponential_def simp del: arith_simps intro!: nn_intros nn_Fin)

lemma Uniform_nn: "not_negative (pdf Uniform x ps)"
  by (auto simp: Uniform_def Let_def simp del: arith_simps
      intro!: nn_intros nn_Fin nn_minus dest: not_le_not_less)

lemma StudentT_nn: "valid_params StudentT ps \<Longrightarrow> not_negative (pdf StudentT x ps)"
  by (auto simp: vp Let_def StudentT_def simp del: arith_simps intro!: nn_intros nn_Fin)

lemma LogNormal_nn:
  assumes "valid_params LogNormal ps"
  shows "not_negative (pdf LogNormal x ps)"
proof (cases "x \<le> Fin 0")
  case True
  then show ?thesis by (simp add: LogNormal_def Let_def nn_Fin)
next
  case False
  then have "not_negative x" by (rule nn_not_le)
  then show ?thesis using False assms
    by (auto simp: vp Let_def LogNormal_def SQRT2PI_def simp del: arith_simps
        intro!: nn_intros nn_Fin)
qed

lemma Cauchy_nn: "valid_params Cauchy_dist ps \<Longrightarrow> not_negative (pdf Cauchy_dist x ps)"
  by (auto simp: vp Let_def Cauchy_dist_def Math_PI_def simp del: arith_simps intro!: nn_intros nn_Fin)

lemma Laplace_nn: "valid_params Laplace ps \<Longrightarrow> not_negative (pdf Laplace x ps)"
  by (auto simp: vp Let_def Laplace_def simp del: arith_simps intro!: nn_intros nn_Fin)

lemma Weibull_nn:
  assumes "valid_params Weibull ps"
  shows "not_negative (pdf Weibull x ps)"
proof (cases "x \<le> Fin 0")
  case True
  then show ?thesis by (simp add: Weibull_def Let_def nn_Fin)
next
  case False
  then have "not_negative x" by (rule nn_not_le)
  then show ?thesis using False assms
    by (auto simp: vp Let_def Weibull_def simp del: arith_simps intro!: nn_intros nn_Fin)
qed

lemma Triangular_nn: "not_negative (pdf Triangular x ps)"
  by (auto simp: Triangular_def Let_def simp del: arith_simps
      intro!: nn_intros nn_Fin nn_minus dest: not_le_not_less)

lemma SkewNormal_nn: "valid_params SkewNormal ps \<Longrightarrow> not_negative (pdf SkewNormal x ps)"
  by (auto simp: vp Let_def SkewNormal_def simp del: arith_simps
      intro!: nn_intros nn_Fin nn_normalPDF nn_normalCDF)

lemma Logistic_nn: "valid_params Logistic ps \<Longrightarrow> not_negative (pdf Logistic x ps)"
  by (auto simp: vp Let_def Logistic_def simp del: arith_simps intro!: nn_intros nn_Fin)

lemma Geometric_nn: "valid_params Geometric ps \<Longrightarrow> not_negative (pdf Geometric x ps)"
  by (auto simp: vp Let_def Geometric_def simp del: arith_simps intro!: nn_intros nn_Fin nn_minus)

lemma DiscreteUniform_nn: "not_negative (pdf DiscreteUniform x ps)"
  by (auto simp: DiscreteUniform_def Let_def simp del: arith_simps
      intro!: nn_intros nn_Fin nn_minus)

lemma Bernoulli_nn: "valid_params Bernoulli ps \<Longrightarrow> not_negative (pdf Bernoulli x ps)"
  by (auto simp: vp Let_def Bernoulli_def simp del: arith_simps intro!: nn_intros nn_Fin nn_minus)


lemma not_less_NaN [simp]: "\<not> v < NaN"
  by (cases v) auto

lemma Math_min_less:
  assumes "v < Math_min a b"
  shows "v < a"
proof -
  have "a \<noteq> NaN" "b \<noteq> NaN" using assms by (auto simp: Math_min_def split: if_splits)
  then show ?thesis using assms
    by (cases a; cases b; cases v) (auto simp: Math_min_def split: if_splits)
qed

lemma binomCoeff_loop_nn_Fin:
  assumes "\<forall>i. Fin (real i) < Fin r \<longrightarrow> \<not> n < Fin (real i)" "not_negative res"
  shows "\<exists>v. binomCoeff_loop n (Fin r) i res = Some v \<and> not_negative v"
  using assms(2)
proof (induction "nat \<lceil>r\<rceil> - i" arbitrary: i res)
  case 0
  then have "\<not> real i < r" by linarith
  then show ?case using "0.prems" by (subst binomCoeff_loop.simps) simp
next
  case (Suc m)
  then have m: "m = nat \<lceil>r\<rceil> - Suc i" by simp
  show ?case
  proof (cases "real i < r")
    case True
    then have "\<not> n < Fin (real i)" using assms(1) by simp
    then have "not_negative (res * ((n - Fin (real i)) / (Fin (real i) + Fin 1)))"
      using Suc.prems by (intro nn_times nn_divide nn_minus nn_plus nn_Fin) auto
    from Suc.hyps(1) [OF m this] show ?thesis using True
      by (subst binomCoeff_loop.simps) simp
  next
    case False
    then show ?thesis using Suc.prems by (subst binomCoeff_loop.simps) simp
  qed
qed

lemma binomCoeff_nn:
  assumes "\<not> k < Fin 0" "\<not> n < k"
  shows "not_negative (the (binomCoeff n k))"
proof (cases "strict_eq k (Fin 0) \<or> strict_eq k n")
  case True
  then show ?thesis using assms by (simp add: binomCoeff_def nn_Fin)
next
  case False
  define k' where "k' = Math_min k (n - k)"
  have eq: "binomCoeff n k = binomCoeff_loop n k' 0 (Fin 1)"
    using assms False by (simp add: binomCoeff_def k'_def)
  have inv: "\<not> n < Fin (real i)" if "Fin (real i) < k'" for i
  proof
    assume "n < Fin (real i)"
    moreover have "Fin (real i) < k" using that unfolding k'_def by (rule Math_min_less)
    ultimately have "n < k" by (rule less_trans_jsnum)
    then show False using assms(2) by simp
  qed
  show ?thesis
  proof (cases k')
    case (Fin r)
    obtain v where "binomCoeff_loop n (Fin r) 0 (Fin 1) = Some v" "not_negative v"
      using binomCoeff_loop_nn_Fin [of r n "Fin 1" 0] inv Fin by (auto simp: nn_Fin)
    then show ?thesis using eq Fin by simp
  next
    case NaN
    then have "binomCoeff_loop n k' 0 (Fin 1) = Some (Fin 1)"
      by (subst binomCoeff_loop.simps) simp
    then show ?thesis using eq by (simp add: nn_Fin)
  next
    case NInf
    then have "binomCoeff_loop n k' 0 (Fin 1) = Some (Fin 1)"
      by (subst binomCoeff_loop.simps) simp
    then show ?thesis using eq by (simp add: nn_Fin)
  next
    case PInf
    then have "k = PInf" "n - k = PInf" unfolding k'_def by (auto dest: Math_min_PInf)
    then show ?thesis using assms False by (cases n) (auto simp: strict_eq_def)
  qed
qed

lemma Binomial_nn:
  assumes "valid_params Binomial ps"
  shows "not_negative (pdf Binomial x ps)"
proof -
  obtain n p where np: "ps = [Fin n, Fin p]" "0.01 \<le> p" "p \<le> 0.99"
    using assms by (auto simp: vp Binomial_def)
  have p: "not_negative (Fin p)" "not_negative (Fin 1 - Fin p)"
    using np by (auto intro!: nn_Fin nn_minus)
  show ?thesis
  proof (cases "Math_round x < Fin 0 \<or> Fin n < Math_round x")
    case True
    then show ?thesis using np(1) by (auto simp: Binomial_def Let_def arg_def nn_Fin)
  next
    case False
    then have "not_negative (the (binomCoeff (Fin n) (Math_round x)))"
      by (intro binomCoeff_nn) auto
    then show ?thesis using False np(1) p
      by (auto simp: Binomial_def Let_def arg_def simp del: arith_simps intro!: nn_intros)
  qed
qed


lemma exp_2000_overflows: "MAXR \<le> exp 2000"
proof -
  have "(2::real) \<le> exp 1" using exp_ge_add_one_self [of 1] by simp
  then have "(2::real) ^ 2000 \<le> exp 1 ^ 2000" by (intro power_mono) auto
  also have "\<dots> = exp (2000 * 1)" by (simp only: exp_of_nat_mult [symmetric] of_nat_numeral)
  finally have "(2::real) ^ 2000 \<le> exp 2000" by simp
  moreover have "MAXR \<le> 2 ^ 2000" unfolding MAXR_def by (intro power_increasing) auto
  ultimately show ?thesis by linarith
qed

text \<open>
  Claim C1, as amended.  For every family of the registry, every valid parameter
  vector and every \<open>x\<close>, \<open>pdf(x, params)\<close> is never negative: it is a finite number
  that is at least \<open>0\<close>, or \<open>+Infinity\<close>, or \<open>NaN\<close>.  It is not always finite: the
  Logistic density at \<open>x = -2000\<close> with \<open>mu = 0\<close>, \<open>s = 1\<close> is
  \<open>Infinity / Infinity\<close>, since \<open>exp(2000)\<close> overflows.
\<close>

theorem pdf_not_negative:
  assumes "d \<in> set DISTRIBUTIONS" "valid_params d ps"
  shows "\<not> pdf d x ps < Fin 0"
proof -
  have "not_negative (pdf d x ps)"
    using registry_cases [OF assms(1)] assms(2)
    by (elim disjE)
       (simp_all add: Normal_nn Beta_nn Gamma_nn HalfNormal_nn Exponential_nn Uniform_nn
          StudentT_nn LogNormal_nn Cauchy_nn Laplace_nn Weibull_nn Triangular_nn SkewNormal_nn
          InverseGamma_nn Logistic_nn Binomial_nn Poisson_nn NegativeBinomial_nn Geometric_nn
          DiscreteUniform_nn Bernoulli_nn)
  then show ?thesis by (simp add: not_negative_def)
qed

theorem pdf_not_negative_witness:
  "Normal \<in> set DISTRIBUTIONS \<and> valid_params Normal [Fin 0, Fin 1]
     \<and> \<not> pdf Normal (Fin 0.5) [Fin 0, Fin 1] < Fin 0"
proof -
  have 1: "Normal \<in> set DISTRIBUTIONS" by (simp add: DISTRIBUTIONS_def)
  have 2: "valid_params Normal [Fin 0, Fin 1]"
    by (simp add: valid_params_def in_range_def mkParam_def Normal_def)
  show ?thesis using pdf_not_negative [OF 1 2, of "Fin 0.5"] 1 2 by simp
qed

theorem Logistic_pdf_NaN:
  "Logistic \<in> set DISTRIBUTIONS \<and> valid_params Logistic [Fin 0, Fin 1]
     \<and> pdf Logistic (Fin (- 2000)) [Fin 0, Fin 1] = NaN
     \<and> \<not> isFinite (pdf Logistic (Fin (- 2000)) [Fin 0, Fin 1])"
proof -
  have 1: "Logistic \<in> set DISTRIBUTIONS" by (simp add: DISTRIBUTIONS_def)
  have 2: "valid_params Logistic [Fin 0, Fin 1]"
    by (simp add: valid_params_def in_range_def mkParam_def Logistic_def)
  have e: "rnd (exp 2000) = PInf" using exp_2000_overflows by (simp add: rnd_def)
  have 3: "pdf Logistic (Fin (- 2000)) [Fin 0, Fin 1] = NaN"
    by (simp add: Logistic_def arg_def Let_def e Math_pow_def)
  show ?thesis using 1 2 3 by simp
qed

end
